theory Spec2Isabelle
  imports Complex_Main "HOL-Library.Product_Lexorder"
begin

section \<open>Timestamps\<close>

text \<open>
  Modelled from the spec: the timestamp type is the rendering library's \<open>JulianDate\<close>, which is
  not under src/. app.js reads and writes its two fields \<open>dayNumber\<close> and \<open>secondsOfDay\<close>
  directly (the seek handler uses \<open>dayNumber = 0\<close> as "no target chosen yet") and calls
  \<open>compare\<close>-based tests, \<open>secondsDifference\<close>, \<open>addSeconds\<close> and \<open>equalsEpsilon\<close> on it. The
  spec treats a timestamp as a point in time measured in seconds; the functions below give
  the two-field representation that meaning (a whole day number and the seconds within
  that day, 86400 seconds a day). JavaScript numbers are modelled as exact reals.
\<close>

record JulianDate =
  dayNumber :: int
  secondsOfDay :: real

definition SECONDS_PER_DAY :: real where
  "SECONDS_PER_DAY = 86400"

definition secondsDifference :: "JulianDate \<Rightarrow> JulianDate \<Rightarrow> real" where
  "secondsDifference left right =
     real_of_int (dayNumber left - dayNumber right) * SECONDS_PER_DAY
       + (secondsOfDay left - secondsOfDay right)"

definition compare :: "JulianDate \<Rightarrow> JulianDate \<Rightarrow> real" where
  "compare left right =
     (if dayNumber left - dayNumber right \<noteq> 0
      then real_of_int (dayNumber left - dayNumber right)
      else secondsOfDay left - secondsOfDay right)"

definition lessThan_jd :: "JulianDate \<Rightarrow> JulianDate \<Rightarrow> bool" where
  "lessThan_jd left right = (compare left right < 0)"

definition greaterThan_jd :: "JulianDate \<Rightarrow> JulianDate \<Rightarrow> bool" where
  "greaterThan_jd left right = (compare left right > 0)"

definition equals_jd :: "JulianDate \<Rightarrow> JulianDate \<Rightarrow> bool" where
  "equals_jd left right =
     (dayNumber left = dayNumber right \<and> secondsOfDay left = secondsOfDay right)"

text \<open>
  \<open>equalsEpsilon left right epsilon\<close>: the two dates are at most \<open>epsilon\<close> seconds apart.
  Where app.js leaves the third argument out, the library's default \<open>0\<close> is passed.
\<close>

definition equalsEpsilon :: "JulianDate \<Rightarrow> JulianDate \<Rightarrow> real \<Rightarrow> bool" where
  "equalsEpsilon left right epsilon = (\<bar>secondsDifference left right\<bar> \<le> epsilon)"

text \<open>
  The whole days in a number of seconds: JavaScript's \<open>x | 0\<close> rounds towards zero and
  wraps the result around to a signed 32-bit integer.
\<close>

definition trunc0 :: "real \<Rightarrow> int" where
  "trunc0 x =
     (let n = (if 0 \<le> x then \<lfloor>x\<rfloor> else \<lceil>x\<rceil>);
          m = n mod 2 ^ 32
      in if m \<ge> 2 ^ 31 then m - 2 ^ 32 else m)"

definition setComponents :: "int \<Rightarrow> real \<Rightarrow> JulianDate" where
  "setComponents wholeDays secs =
     (let extraDays = trunc0 (secs / SECONDS_PER_DAY);
          wholeDays1 = wholeDays + extraDays;
          secs1 = secs - SECONDS_PER_DAY * real_of_int extraDays
      in if secs1 < 0
         then \<lparr>dayNumber = wholeDays1 - 1, secondsOfDay = secs1 + SECONDS_PER_DAY\<rparr>
         else \<lparr>dayNumber = wholeDays1, secondsOfDay = secs1\<rparr>)"

definition addSeconds :: "JulianDate \<Rightarrow> real \<Rightarrow> JulianDate" where
  "addSeconds julianDate seconds =
     setComponents (dayNumber julianDate) (secondsOfDay julianDate + seconds)"

text \<open>
  Modelled from the spec: the library's scalar comparison \<open>Math.equalsEpsilon\<close> (not under
  src/), "differs by more than a small epsilon" in the synchronizer: equal when the
  difference is within the absolute tolerance, or within the relative tolerance scaled by
  the larger magnitude.
\<close>

definition math_equalsEpsilon :: "real \<Rightarrow> real \<Rightarrow> real \<Rightarrow> real \<Rightarrow> bool" where
  "math_equalsEpsilon left right relativeEpsilon absoluteEpsilon =
     (\<bar>left - right\<bar> \<le> absoluteEpsilon
      \<or> \<bar>left - right\<bar> \<le> relativeEpsilon * max \<bar>left\<bar> \<bar>right\<bar>)"

section \<open>Clock and media element\<close>

record Clock =
  currentTime :: JulianDate
  startTime :: JulianDate
  stopTime :: JulianDate
  multiplier :: real
  shouldAnimate :: bool

record MediaElement =
  mediaTime :: real
  playbackRate :: real
  paused :: bool

subsection \<open>Video.start: the per-tick synchronizer\<close>

text \<open>
  \<open>syncVideo\<close> of \<open>Video.start\<close> (app.js 550-565). \<open>istart\<close> is \<open>interval.start\<close> and
  \<open>rate\<close> the video's own rate, both captured when the video became active. The element's
  \<open>currentTime\<close> is the field \<open>mediaTime\<close>; \<open>play()\<close> and \<open>pause()\<close> clear and set \<open>paused\<close>.
\<close>

definition SLOW_FORWARD :: real where
  "SLOW_FORWARD = 1 / 10"

definition syncVideo :: "Clock \<Rightarrow> JulianDate \<Rightarrow> real \<Rightarrow> MediaElement \<Rightarrow> MediaElement" where
  "syncVideo clock istart rate element =
     (let elapsed = secondsDifference (currentTime clock) istart / rate;
          e1 = (if \<not> math_equalsEpsilon elapsed (mediaTime element) (1 / 10) 1
                then element\<lparr>mediaTime := elapsed\<rparr> else element);
          direction = (if multiplier clock < 0 then SLOW_FORWARD else 1);
          e2 = (if direction \<noteq> playbackRate e1
                then e1\<lparr>playbackRate := direction\<rparr> else e1)
      in if shouldAnimate clock \<and> paused e2 then e2\<lparr>paused := False\<rparr>
         else if \<not> shouldAnimate clock \<and> \<not> paused e2 then e2\<lparr>paused := True\<rparr>
         else e2)"

text \<open>A run of ticks while the video stays active: one \<open>syncVideo\<close> per tick.\<close>

fun syncTicks :: "Clock list \<Rightarrow> JulianDate \<Rightarrow> real \<Rightarrow> MediaElement \<Rightarrow> MediaElement list" where
  "syncTicks [] istart rate element = []"
| "syncTicks (clock # clocks) istart rate element =
     syncVideo clock istart rate element
       # syncTicks clocks istart rate (syncVideo clock istart rate element)"

section \<open>Trajectory smoother\<close>

text \<open>
  The tracker of \<open>Flight.create\<close> (app.js 186-244). A position is the library's
  \<open>Cartesian3\<close>, of which the code uses componentwise \<open>add\<close>, \<open>subtract\<close> and
  \<open>divideByScalar\<close>. The smoother's input is the sequence of samples already converted to
  timestamps and positions; \<open>trackerPositions\<close> records the \<open>addSample\<close> calls in order.
\<close>

record Cartesian3 =
  cx :: real
  cy :: real
  cz :: real

definition c3_add :: "Cartesian3 \<Rightarrow> Cartesian3 \<Rightarrow> Cartesian3" where
  "c3_add a b = \<lparr>cx = cx a + cx b, cy = cy a + cy b, cz = cz a + cz b\<rparr>"

definition c3_subtract :: "Cartesian3 \<Rightarrow> Cartesian3 \<Rightarrow> Cartesian3" where
  "c3_subtract a b = \<lparr>cx = cx a - cx b, cy = cy a - cy b, cz = cz a - cz b\<rparr>"

definition c3_divideByScalar :: "Cartesian3 \<Rightarrow> real \<Rightarrow> Cartesian3" where
  "c3_divideByScalar a s = \<lparr>cx = cx a / s, cy = cy a / s, cz = cz a / s\<rparr>"

record Sample =
  position :: Cartesian3
  time :: JulianDate

record Tracker =
  trackerStack :: "Sample list"
  trackerCartesian :: Cartesian3
  trackerPositions :: "(JulianDate \<times> Cartesian3) list"

definition TRACKER_WINDOW :: nat where
  "TRACKER_WINDOW = 128"

definition tracker_init :: Tracker where
  "tracker_init =
     \<lparr>trackerStack = [], trackerCartesian = \<lparr>cx = 0, cy = 0, cz = 0\<rparr>, trackerPositions = []\<rparr>"

text \<open>
  \<open>updateTracker(drain)\<close>. \<open>None\<close> is the TypeError of reading a field of \<open>undefined\<close>:
  \<open>shift()\<close> of an empty array, or an index past the end of the array.
\<close>

definition tracker_shift :: "bool \<Rightarrow> Tracker \<Rightarrow> Tracker option" where
  "tracker_shift drain t =
     (if drain \<or> length (trackerStack t) \<ge> TRACKER_WINDOW
      then (case trackerStack t of
              [] \<Rightarrow> None
            | bottom # rest \<Rightarrow>
                Some (t\<lparr>trackerStack := rest,
                        trackerCartesian := c3_subtract (trackerCartesian t) (position bottom)\<rparr>))
      else Some t)"

definition tracker_emit :: "bool \<Rightarrow> Tracker \<Rightarrow> Tracker option" where
  "tracker_emit drain t =
     (let n = length (trackerStack t) in
      if (drain \<and> n \<noteq> 0) \<or> n > TRACKER_WINDOW div 2
      then (let average = c3_divideByScalar (trackerCartesian t) (real n);
                index = max 0 (int n - int (TRACKER_WINDOW div 2))
            in if nat index < n
               then Some (t\<lparr>trackerPositions :=
                             trackerPositions t @ [(time (trackerStack t ! nat index), average)]\<rparr>)
               else None)
      else Some t)"

definition updateTracker :: "bool \<Rightarrow> Tracker \<Rightarrow> Tracker option" where
  "updateTracker drain t =
     (case tracker_shift drain t of None \<Rightarrow> None | Some t1 \<Rightarrow> tracker_emit drain t1)"

text \<open>The sample loop (app.js 212-239): push the sample, add it to the sum, update.\<close>

fun tracker_feed :: "Sample list \<Rightarrow> Tracker \<Rightarrow> Tracker option" where
  "tracker_feed [] t = Some t"
| "tracker_feed (s # ss) t =
     (case updateTracker False
             (t\<lparr>trackerStack := trackerStack t @ [s],
                trackerCartesian := c3_add (trackerCartesian t) (position s)\<rparr>) of
        None \<Rightarrow> None
      | Some t1 \<Rightarrow> tracker_feed ss t1)"

lemma updateTracker_drain_shorter:
  "updateTracker True t = Some t1 \<Longrightarrow> length (trackerStack t1) < length (trackerStack t)"
  by (auto simp: updateTracker_def tracker_shift_def tracker_emit_def Let_def
           split: list.splits if_splits option.splits)

text \<open>The flush (app.js 243-244): \<open>while (trackerStack.length > 0) updateTracker(true)\<close>.\<close>

function tracker_flush :: "Tracker \<Rightarrow> Tracker option" where
  "tracker_flush t =
     (if length (trackerStack t) > 0
      then (case updateTracker True t of None \<Rightarrow> None | Some t1 \<Rightarrow> tracker_flush t1)
      else Some t)"
  by pat_completeness auto
termination
  by (relation "measure (\<lambda>t. length (trackerStack t))")
     (auto dest: updateTracker_drain_shorter)

definition smoother :: "Sample list \<Rightarrow> Tracker option" where
  "smoother samples =
     (case tracker_feed samples tracker_init of None \<Rightarrow> None | Some t \<Rightarrow> tracker_flush t)"

text \<open>
  For the proofs: a point scaled by a number, the state of a tracker that has only seen the
  point \<open>p\<close> (the running sum is the queue length times \<open>p\<close>), and a constant track used
  as a concrete input.
\<close>


definition c3_scale :: "real \<Rightarrow> Cartesian3 \<Rightarrow> Cartesian3" where
  "c3_scale k p = \<lparr>cx = k * cx p, cy = k * cy p, cz = k * cz p\<rparr>"

definition tracker_const :: "Cartesian3 \<Rightarrow> Tracker \<Rightarrow> bool" where
  "tracker_const p t =
     (list_all (\<lambda>s. position s = p) (trackerStack t)
      \<and> trackerCartesian t = c3_scale (real (length (trackerStack t))) p
      \<and> list_all (\<lambda>e. snd e = p) (trackerPositions t))"

definition sample0 :: "nat \<Rightarrow> Sample" where
  "sample0 i = \<lparr>position = \<lparr>cx = 1, cy = 2, cz = 3\<rparr>,
                time = \<lparr>dayNumber = 2460000, secondsOfDay = real i\<rparr>\<rparr>"

section \<open>Intervals and interval collections\<close>

text \<open>
  A flight or a video is a JavaScript object; \<open>oid\<close> is its identity, the payload of its
  interval. Every interval app.js puts in a collection is built with
  \<open>isStopIncluded: false\<close> and the default \<open>isStartIncluded: true\<close> (app.js 246-251,
  425-430), so an interval is the half-open span from \<open>start\<close> up to \<open>stop\<close> and the two
  flags are not stored.
\<close>

type_synonym oid = nat

record TimeInterval =
  start :: JulianDate
  stop :: JulianDate
  data :: "oid option"

definition isEmpty :: "TimeInterval \<Rightarrow> bool" where
  "isEmpty iv = (compare (stop iv) (start iv) \<le> 0)"

definition contains :: "TimeInterval \<Rightarrow> JulianDate \<Rightarrow> bool" where
  "contains iv date = (compare (start iv) date \<le> 0 \<and> compare date (stop iv) < 0)"

text \<open>JavaScript's \<open>~\<close> on an index.\<close>

definition bnot :: "int \<Rightarrow> int" where
  "bnot i = - i - 1"

text \<open>
  Modelled from the spec: the library's \<open>TimeIntervalCollection\<close> is not under src/. Section
  4.1 of the spec gives its contract: the intervals are kept sorted by start and do not
  overlap, and \<open>find(time)\<close> (the library's \<open>indexOf\<close>) is a search that returns the index of
  the containing interval, or else a negative number \<open>r\<close> such that \<open>~r\<close> is the index of the
  first interval that starts after \<open>time\<close>. \<open>get(i)\<close> reads the underlying array, which has
  no element at a negative index or past the end.
\<close>

definition indexOf :: "TimeInterval list \<Rightarrow> JulianDate \<Rightarrow> int" where
  "indexOf ivs date =
     (let n = length (takeWhile (\<lambda>e. compare (start e) date \<le> 0) ivs)
      in if n > 0 \<and> contains (ivs ! (n - 1)) date then int n - 1 else bnot (int n))"

definition get :: "TimeInterval list \<Rightarrow> int \<Rightarrow> TimeInterval option" where
  "get ivs i = (if 0 \<le> i \<and> nat i < length ivs then Some (ivs ! nat i) else None)"

definition findIntervalContainingDate :: "TimeInterval list \<Rightarrow> JulianDate \<Rightarrow> TimeInterval option" where
  "findIntervalContainingDate ivs date =
     (let index = indexOf ivs date in if index \<ge> 0 then get ivs index else None)"

text \<open>
  The invariant of a collection (spec 4.1), on the list of its intervals: none is empty,
  and they are in order without overlap, each one stopping before or when every later one
  starts. \<open>payloads_at ivs date\<close> are the payloads of the intervals that contain \<open>date\<close>, in
  the order of the list.
\<close>

definition well_formed :: "TimeInterval list \<Rightarrow> bool" where
  "well_formed ivs =
     (list_all (\<lambda>e. \<not> isEmpty e) ivs
      \<and> sorted_wrt (\<lambda>a b. compare (stop a) (start b) \<le> 0) ivs)"

definition payloads_at :: "TimeInterval list \<Rightarrow> JulianDate \<Rightarrow> oid option list" where
  "payloads_at ivs date = map data (filter (\<lambda>e. contains e date) ivs)"

section \<open>Seek engine\<close>

text \<open>
  The arrow-key branch of the \<open>keydown\<close> handler (app.js 860-1018). \<open>left\<close> is key code 37,
  \<open>ctrl\<close> the control modifier, \<open>ivs\<close> the global collection \<open>state.intervals\<close>. \<open>None\<close> is the
  TypeError of reading \<open>start\<close> or \<open>stop\<close> of an interval that \<open>get\<close> did not find (no
  seek ends there: lemma \<open>seek_returns\<close>). The target \<open>jump\<close> starts with day number
  \<open>0\<close>, which the handler reads as "not decided"; every branch that decides writes both
  fields of \<open>jump\<close>.
\<close>

definition JUMP_SECONDS :: real where
  "JUMP_SECONDS = 10"

definition jump_unset :: JulianDate where
  "jump_unset = \<lparr>dayNumber = 0, secondsOfDay = 0\<rparr>"

text \<open>Boundary epsilon matching (app.js 878-889): the index while inside an interval.\<close>

definition match_inside :: "bool \<Rightarrow> TimeInterval list \<Rightarrow> JulianDate \<Rightarrow> int \<Rightarrow> int option" where
  "match_inside left ivs current index =
     (if index \<ge> 0
      then (case get ivs index of
              None \<Rightarrow> None
            | Some interval \<Rightarrow>
                if left \<and> equalsEpsilon current (start interval) 1 then Some (bnot index)
                else if \<not> left \<and> equalsEpsilon current (stop interval) 0
                then Some (bnot (index + 1))
                else Some index)
      else Some index)"

text \<open>Boundary epsilon matching (app.js 890-904): the index while outside every interval.\<close>

definition match_outside :: "bool \<Rightarrow> TimeInterval list \<Rightarrow> JulianDate \<Rightarrow> int \<Rightarrow> int" where
  "match_outside left ivs current index =
     (if index < 0
      then (if left
            then (case get ivs (bnot index - 1) of
                    Some interval \<Rightarrow>
                      if equalsEpsilon current (stop interval) 1 then bnot index - 1 else index
                  | None \<Rightarrow> index)
            else (case get ivs (bnot index) of
                    Some interval \<Rightarrow>
                      if equalsEpsilon current (start interval) 1 then bnot index else index
                  | None \<Rightarrow> index))
      else index)"

definition epsilon_match :: "bool \<Rightarrow> TimeInterval list \<Rightarrow> JulianDate \<Rightarrow> int option" where
  "epsilon_match left ivs current =
     (case match_inside left ivs current (indexOf ivs current) of
        None \<Rightarrow> None
      | Some index \<Rightarrow> Some (match_outside left ivs current index))"

text \<open>Inside an interval (app.js 906-947).\<close>

definition seek_inside ::
  "bool \<Rightarrow> bool \<Rightarrow> TimeInterval list \<Rightarrow> Clock \<Rightarrow> real \<Rightarrow> int \<Rightarrow> JulianDate option" where
  "seek_inside left ctrl ivs clock seconds index =
     (if index \<ge> 0
      then (case get ivs index of
              None \<Rightarrow> None
            | Some interval \<Rightarrow>
                if index = 0 \<and> ctrl \<and> left
                   \<and> equalsEpsilon (currentTime clock) (start interval) 1
                then Some (startTime clock)
                else if index = int (length ivs) \<and> ctrl \<and> \<not> left
                        \<and> equalsEpsilon (currentTime clock) (stop interval) 0
                then (if ctrl \<and> index = (if length ivs < 1 then 1 else 0)
                      then Some (stopTime clock) else Some jump_unset)
                else if ctrl \<and> left then Some (start interval)
                else if ctrl \<and> \<not> left then Some (stop interval)
                else (let jump = addSeconds (currentTime clock) seconds
                      in if indexOf ivs jump \<noteq> index then Some jump_unset else Some jump))
      else Some jump_unset)"

text \<open>Not in an interval, or the plain step left it (app.js 950-979).\<close>

definition seek_outside ::
  "bool \<Rightarrow> bool \<Rightarrow> TimeInterval list \<Rightarrow> Clock \<Rightarrow> real \<Rightarrow> int \<Rightarrow> JulianDate \<Rightarrow> JulianDate" where
  "seek_outside left ctrl ivs clock seconds index jump =
     (if dayNumber jump = 0
      then (if ctrl \<and> left
            then (case get ivs (bnot index - 1) of
                    Some interval \<Rightarrow> stop interval
                  | None \<Rightarrow> startTime clock)
            else if ctrl \<and> \<not> left
            then (case get ivs (bnot index) of
                    Some interval \<Rightarrow> start interval
                  | None \<Rightarrow> stopTime clock)
            else addSeconds (currentTime clock) seconds)
      else jump)"

text \<open>Still undecided inside an interval: go to its edge (app.js 981-988).\<close>

definition seek_edge :: "bool \<Rightarrow> TimeInterval list \<Rightarrow> int \<Rightarrow> JulianDate \<Rightarrow> JulianDate option" where
  "seek_edge left ivs index jump =
     (if dayNumber jump = 0 \<and> index \<ge> 0
      then (case get ivs index of
              None \<Rightarrow> None
            | Some interval \<Rightarrow> Some (if left then start interval else stop interval))
      else Some jump)"

text \<open>
  The outcome of a seek: the clock after it, whether a bound was widened, and whether the
  handler's two assertions held (\<open>assert(jump.dayNumber)\<close>, \<open>assert(!expanded || !ctrl)\<close>;
  a failed \<open>assert\<close> reports and carries on).
\<close>

record SeekResult =
  clock_after :: Clock
  expanded :: bool
  decided :: bool
  ctrl_kept_bounds :: bool

text \<open>Bound expansion and the commit (app.js 991-1017).\<close>

definition seek_commit :: "bool \<Rightarrow> bool \<Rightarrow> Clock \<Rightarrow> JulianDate \<Rightarrow> SeekResult" where
  "seek_commit left ctrl clock jump =
     (let grow = (if left then lessThan_jd jump (startTime clock)
                  else greaterThan_jd jump (stopTime clock));
          clock1 = (if left
                    then (if lessThan_jd jump (startTime clock)
                          then clock\<lparr>startTime := jump\<rparr> else clock)
                    else (if greaterThan_jd jump (stopTime clock)
                          then clock\<lparr>stopTime := jump\<rparr> else clock))
      in \<lparr>clock_after = clock1\<lparr>currentTime := jump\<rparr>,
          expanded = grow,
          decided = (dayNumber jump \<noteq> 0),
          ctrl_kept_bounds = (\<not> grow \<or> \<not> ctrl)\<rparr>)"

definition seek :: "bool \<Rightarrow> bool \<Rightarrow> TimeInterval list \<Rightarrow> Clock \<Rightarrow> SeekResult option" where
  "seek left ctrl ivs clock =
     (if length ivs = 0
      then Some \<lparr>clock_after = clock, expanded = False, decided = True, ctrl_kept_bounds = True\<rparr>
      else
        (let seconds = JUMP_SECONDS * (if left then - 1 else 1) * \<bar>multiplier clock\<bar>
         in case epsilon_match left ivs (currentTime clock) of
              None \<Rightarrow> None
            | Some index \<Rightarrow>
                (case seek_inside left ctrl ivs clock seconds index of
                   None \<Rightarrow> None
                 | Some jump1 \<Rightarrow>
                     (case seek_edge left ivs index
                             (seek_outside left ctrl ivs clock seconds index jump1) of
                        None \<Rightarrow> None
                      | Some jump \<Rightarrow> Some (seek_commit left ctrl clock jump)))))"

section \<open>Concrete timelines\<close>

text \<open>
  The timeline of the seek scenario, placed on day \<open>d\<close>: the intervals from second 10 to 20
  and from 30 to 40 of that day, and a clock bounded by seconds 0 and 50 of it.
\<close>

definition at_day :: "int \<Rightarrow> real \<Rightarrow> JulianDate" where
  "at_day d s = \<lparr>dayNumber = d, secondsOfDay = s\<rparr>"

definition two_intervals :: "int \<Rightarrow> TimeInterval list" where
  "two_intervals d =
     [\<lparr>start = at_day d 10, stop = at_day d 20, data = Some 0\<rparr>,
      \<lparr>start = at_day d 30, stop = at_day d 40, data = Some 1\<rparr>]"

definition clock_at :: "int \<Rightarrow> real \<Rightarrow> real \<Rightarrow> bool \<Rightarrow> Clock" where
  "clock_at d s m run =
     \<lparr>currentTime = at_day d s, startTime = at_day d 0, stopTime = at_day d 50,
      multiplier = m, shouldAnimate = run\<rparr>"

text \<open>
  A flight recorded on day 2460000 in the global collection while the clock still has the
  bounds it had before anything was loaded (a later day): the state of the application
  between two loads of \<open>load\<close> (app.js 709-713), which \<open>Pilot.add\<close> has already
  extended and which \<open>loaded\<close> has not yet fitted the clock to.
\<close>

definition early_flight :: "TimeInterval list" where
  "early_flight = [\<lparr>start = at_day 2460000 10, stop = at_day 2460000 20, data = Some 0\<rparr>]"

definition late_clock :: Clock where
  "late_clock =
     \<lparr>currentTime = at_day 2460100 0, startTime = at_day 2460100 0,
      stopTime = at_day 2460101 0, multiplier = 50, shouldAnimate = True\<rparr>"

text \<open>
  For the proofs: the dates a seek with the control modifier can choose, and an interval
  that lies within the bounds of the clock.
\<close>

definition snap_targets :: "bool \<Rightarrow> TimeInterval list \<Rightarrow> Clock \<Rightarrow> JulianDate set" where
  "snap_targets left ivs clock =
     insert (if left then startTime clock else stopTime clock)
       (start ` set ivs \<union> stop ` set ivs)"

definition within_bounds :: "Clock \<Rightarrow> TimeInterval \<Rightarrow> bool" where
  "within_bounds clock iv =
     (\<not> lessThan_jd (start iv) (startTime clock) \<and> \<not> lessThan_jd (stop iv) (startTime clock)
      \<and> \<not> greaterThan_jd (start iv) (stopTime clock) \<and> \<not> greaterThan_jd (stop iv) (stopTime clock))"

section \<open>Interval objects and the collection's updates\<close>

text \<open>
  Intervals are JavaScript objects and collections hold references to them: \<open>Pilot.add\<close>
  puts the very object \<open>obj.interval\<close> into the pilot's collection and a clone into the
  global one, and \<open>destroy\<close> assigns to \<open>interval.data\<close>. The heap maps a reference to the
  interval it denotes; \<open>fresh\<close> is the next unused reference.
\<close>

type_synonym iref = nat

record IntervalHeap =
  cells :: "iref \<Rightarrow> TimeInterval"
  fresh :: iref

definition new_TimeInterval :: "TimeInterval \<Rightarrow> IntervalHeap \<Rightarrow> iref \<times> IntervalHeap" where
  "new_TimeInterval iv h = (fresh h, h\<lparr>cells := (cells h)(fresh h := iv), fresh := Suc (fresh h)\<rparr>)"

definition clone_interval :: "iref \<Rightarrow> IntervalHeap \<Rightarrow> iref \<times> IntervalHeap" where
  "clone_interval r h = new_TimeInterval (cells h r) h"

definition view :: "IntervalHeap \<Rightarrow> iref list \<Rightarrow> TimeInterval list" where
  "view h refs = map (cells h) refs"

text \<open>The interval objects of a collection that contain a date.\<close>

definition refs_at :: "IntervalHeap \<Rightarrow> iref list \<Rightarrow> JulianDate \<Rightarrow> iref list" where
  "refs_at h refs date = filter (\<lambda>e. contains (cells h e) date) refs"

text \<open>
  Modelled from the spec: \<open>removeInterval\<close> and \<open>addInterval\<close> of the library's
  \<open>TimeIntervalCollection\<close> are not under src/. The collection stays sorted by start with
  no two intervals overlapping (spec 4.1). \<open>removeInterval\<close> cuts a hole over the span of
  the given interval, whatever its payload: an interval outside the span stays as the
  object it is, one that reaches into the span is replaced by new objects for the parts
  outside it. \<open>addInterval\<close> ignores an empty interval; the interval added takes precedence
  over what it meets: a neighbour it overlaps or touches is merged with it when the
  payloads are the same, and otherwise replaced by a new object cut back to the part outside
  the added span (split in two when it reaches past both ends); the result holds the
  object added itself unless a merge replaced it. The merged index of the spec is built
  with \<open>addInterval\<close> (app.js 727-735).
\<close>

fun remove_span :: "TimeInterval \<Rightarrow> iref list \<Rightarrow> IntervalHeap \<Rightarrow> iref list \<times> IntervalHeap" where
  "remove_span iv [] h = ([], h)"
| "remove_span iv (r # rs) h =
     (let e = cells h r in
      if compare (stop e) (start iv) \<le> 0 \<or> compare (stop iv) (start e) \<le> 0
      then (let (rs1, h1) = remove_span iv rs h in (r # rs1, h1))
      else
        (let (before, h1) =
               (if lessThan_jd (start e) (start iv)
                then (let (l, h0) = new_TimeInterval
                                      \<lparr>start = start e, stop = start iv, data = data e\<rparr> h
                      in ([l], h0))
                else ([], h));
             (after, h2) =
               (if greaterThan_jd (stop e) (stop iv)
                then (let (l, h0) = new_TimeInterval
                                      \<lparr>start = stop iv, stop = stop e, data = data e\<rparr> h1
                      in ([l], h0))
                else ([], h1));
             (rs1, h3) = remove_span iv rs h2
         in (before @ after @ rs1, h3)))"

definition removeInterval :: "iref \<Rightarrow> iref list \<Rightarrow> IntervalHeap \<Rightarrow> iref list \<times> IntervalHeap" where
  "removeInterval r coll h =
     (if isEmpty (cells h r) then (coll, h) else remove_span (cells h r) coll h)"

text \<open>
  The interval before the insertion point: \<open>before\<close> are the intervals that start earlier
  than the one added (\<open>cur\<close>), \<open>after\<close> the others.
\<close>

definition merge_prev ::
  "iref \<Rightarrow> iref list \<Rightarrow> iref list \<Rightarrow> IntervalHeap
     \<Rightarrow> iref \<times> iref list \<times> iref list \<times> IntervalHeap" where
  "merge_prev cur before after h =
     (if before = [] then (cur, before, after, h)
      else
        (let e = cells h (last before); iv = cells h cur in
         if compare (stop e) (start iv) \<ge> 0
         then (if data e = data iv
               then (let (c, h1) = new_TimeInterval
                                     \<lparr>start = start e,
                                      stop = (if greaterThan_jd (stop iv) (stop e)
                                              then stop iv else stop e),
                                      data = data iv\<rparr> h
                     in (c, butlast before, after, h1))
               else (let (after1, h1) =
                           (if compare (stop e) (stop iv) > 0
                            then (let (l, h0) = new_TimeInterval
                                                  \<lparr>start = stop iv, stop = stop e,
                                                   data = data e\<rparr> h
                                  in (l # after, h0))
                            else (after, h));
                         (p, h2) = new_TimeInterval
                                     \<lparr>start = start e, stop = start iv, data = data e\<rparr> h1
                     in (cur, butlast before @ [p], after1, h2)))
         else (cur, before, after, h)))"

text \<open>The intervals from the insertion point on, as long as the one added reaches them.\<close>

fun merge_next :: "iref \<Rightarrow> iref list \<Rightarrow> IntervalHeap \<Rightarrow> iref \<times> iref list \<times> IntervalHeap" where
  "merge_next cur [] h = (cur, [], h)"
| "merge_next cur (n # ns) h =
     (let iv = cells h cur; e = cells h n in
      if compare (stop iv) (start e) \<ge> 0
      then (if data e = data iv
            then (let (c, h1) = new_TimeInterval
                                  \<lparr>start = start iv,
                                   stop = (if greaterThan_jd (stop e) (stop iv)
                                           then stop e else stop iv),
                                   data = data iv\<rparr> h
                  in merge_next c ns h1)
            else (let (t, h1) = new_TimeInterval
                                  \<lparr>start = stop iv, stop = stop e, data = data e\<rparr> h
                  in if isEmpty (cells h1 t) then merge_next cur ns h1
                     else (cur, t # ns, h1)))
      else (cur, n # ns, h))"

definition addInterval :: "iref \<Rightarrow> iref list \<Rightarrow> IntervalHeap \<Rightarrow> iref list \<times> IntervalHeap" where
  "addInterval r coll h =
     (let iv = cells h r in
      if isEmpty iv then (coll, h)
      else if coll = [] \<or> greaterThan_jd (start iv) (stop (cells h (last coll)))
      then (coll @ [r], h)
      else
        (let earlier = (\<lambda>e. lessThan_jd (start (cells h e)) (start iv));
             (cur, before, after, h1) =
               merge_prev r (takeWhile earlier coll) (dropWhile earlier coll) h;
             (cur1, after1, h2) = merge_next cur after h1
         in (before @ [cur1] @ after1, h2)))"

section \<open>Application state\<close>

text \<open>
  A value of the loaded metadata, as far as app.js tells values apart: by \<open>typeof\<close>, by
  truthiness and, for numbers, by comparison.
\<close>

datatype jsval = JUndefined | JNull | JBool bool | JNum real | JNaN | JStr string | JObject

fun truthy :: "jsval \<Rightarrow> bool" where
  "truthy (JBool b) = b"
| "truthy (JNum x) = (x \<noteq> 0)"
| "truthy (JStr s) = (s \<noteq> [])"
| "truthy JObject = True"
| "truthy JUndefined = False"
| "truthy JNull = False"
| "truthy JNaN = False"

fun is_number :: "jsval \<Rightarrow> bool" where
  "is_number (JNum x) = True"
| "is_number JNaN = True"
| "is_number v = False"

datatype js_error = TypeError | MediaTimeout | NoMediaDuration

datatype warning =
    Invalid_rate jsval
  | Unparsed_duration jsval
  | Invalid_position jsval jsval jsval

datatype payload_class = Flight | Video

type_synonym pref = nat

text \<open>
  A flight or video object (\<open>class Flight\<close>, \<open>class Video\<close>): the fields the interval
  bookkeeping reads and writes. \<open>o_rate\<close> is the \<open>rate\<close> of a video.
\<close>

record Obj =
  o_class :: payload_class
  o_name :: string
  o_interval :: "iref option"
  o_pilot :: "pref option"
  o_rate :: real

record Pilot =
  p_name :: string
  p_index :: nat
  p_color :: string
  flights :: "iref list"
  videos :: "iref list"
  next_pilot :: "pref option"
  prev_pilot :: "pref option"

text \<open>
  \<open>state\<close> and the module-level variables of app.js. \<open>pilots\<close> is the object
  \<open>state.pilots\<close>, its own properties in the order they were created; \<open>pilots_proto\<close> is
  its prototype when that is a pilot (\<open>None\<close> for \<open>Object.prototype\<close>, the prototype of the
  literal \<open>{ }\<close> it starts as).
\<close>

record State =
  pilots :: "(string \<times> pref) list"
  pilots_proto :: "pref option"
  pilot_heap :: "pref \<Rightarrow> Pilot"
  pilot_fresh :: pref
  objects :: "oid \<Rightarrow> Obj"
  object_fresh :: oid
  iheap :: IntervalHeap
  intervals :: "iref list"
  colors :: "string list"
  warnings :: "warning list"
  viewer_clock :: Clock
  cur_pilot :: pref
  any_pilot :: pref

subsection \<open>Property order of a JavaScript object\<close>

text \<open>
  \<open>Object.keys\<close> and \<open>Object.values\<close> list integer-like keys first, in ascending order,
  then the other keys in the order they were created. Assigning to an existing key keeps its
  place.
\<close>

definition digit_of :: "char \<Rightarrow> nat option" where
  "digit_of c = map_of (zip ''0123456789'' [0, 1, 2, 3, 4, 5, 6, 7, 8, 9]) c"

definition decimal_value :: "string \<Rightarrow> nat" where
  "decimal_value s = foldl (\<lambda>n c. 10 * n + (case digit_of c of Some k \<Rightarrow> k | None \<Rightarrow> 0)) 0 s"

definition is_array_index :: "string \<Rightarrow> bool" where
  "is_array_index s =
     (s \<noteq> [] \<and> list_all (\<lambda>c. digit_of c \<noteq> None) s
      \<and> (if length s > 1 then hd s \<noteq> CHR ''0'' else True)
      \<and> decimal_value s < 2 ^ 32 - 1)"

definition property_order :: "(string \<times> 'a) list \<Rightarrow> (string \<times> 'a) list" where
  "property_order kvs =
     sort_key (\<lambda>kv. decimal_value (fst kv)) (filter (\<lambda>kv. is_array_index (fst kv)) kvs)
       @ filter (\<lambda>kv. \<not> is_array_index (fst kv)) kvs"

definition object_values :: "(string \<times> 'a) list \<Rightarrow> 'a list" where
  "object_values kvs = map snd (property_order kvs)"

fun set_property :: "string \<Rightarrow> 'a \<Rightarrow> (string \<times> 'a) list \<Rightarrow> (string \<times> 'a) list" where
  "set_property k v [] = [(k, v)]"
| "set_property k v (kv # kvs) =
     (if fst kv = k then (k, v) # kvs else kv # set_property k v kvs)"

subsection \<open>Pilots\<close>

definition all_colors :: "string list" where
  "all_colors =
     [''#3498db'', ''#F1C40F'', ''#E67E22'', ''#2ecc71'', ''#27AE60'', ''#16A085'', ''#1ABC9C'',
      ''#3498DB'', ''#8E44AD'', ''#9B59B6'', ''#E74C3C'', ''#C0392B'', ''#F39C12'', ''#D35400'']"

text \<open>
  Reading \<open>state.pilots[name]\<close> looks at the own properties and then along the prototype
  chain, so a name such as \<open>constructor\<close> finds a function of \<open>Object.prototype\<close>, and
  \<open>__proto__\<close> finds the prototype itself. The value read is a pilot or something else, of
  which only the truthiness matters. Once a pilot is the prototype (see the constructor
  below), its fields and the methods of \<open>class Pilot\<close> are found as well.
\<close>

datatype looked_up = Pilot_ref pref | Not_pilot bool

definition OBJECT_PROTOTYPE :: "string list" where
  "OBJECT_PROTOTYPE =
     [''constructor'', ''__defineGetter__'', ''__defineSetter__'', ''hasOwnProperty'',
      ''__lookupGetter__'', ''__lookupSetter__'', ''isPrototypeOf'', ''propertyIsEnumerable'',
      ''toString'', ''valueOf'', ''toLocaleString'']"

definition PILOT_PROTOTYPE :: "string list" where
  "PILOT_PROTOTYPE = [''constructor'', ''add'', ''remove'']"

definition inherited :: "string \<Rightarrow> State \<Rightarrow> looked_up" where
  "inherited name st =
     (case pilots_proto st of
        None \<Rightarrow> Not_pilot (name = ''__proto__'' \<or> name \<in> set OBJECT_PROTOTYPE)
      | Some q \<Rightarrow>
          if name = ''name'' then Not_pilot (p_name (pilot_heap st q) \<noteq> [])
          else if name = ''index'' then Not_pilot (p_index (pilot_heap st q) \<noteq> 0)
          else if name \<in> set [''flights'', ''videos'', ''color''] then Not_pilot True
          else if name = ''next''
          then (case next_pilot (pilot_heap st q) of
                  Some n \<Rightarrow> Pilot_ref n | None \<Rightarrow> Not_pilot False)
          else if name = ''prev''
          then (case prev_pilot (pilot_heap st q) of
                  Some n \<Rightarrow> Pilot_ref n | None \<Rightarrow> Not_pilot False)
          else if name = ''__proto__'' then Pilot_ref q
          else Not_pilot (name \<in> set PILOT_PROTOTYPE \<or> name \<in> set OBJECT_PROTOTYPE))"

definition pilots_lookup :: "string \<Rightarrow> State \<Rightarrow> looked_up" where
  "pilots_lookup name st =
     (case map_of (pilots st) name of
        Some p \<Rightarrow> Pilot_ref p
      | None \<Rightarrow> inherited name st)"

text \<open>
  \<open>Pilot.constructor\<close> (app.js 601-623). \<open>colors.shift()\<close> yields \<open>undefined\<close> once the
  colours are used up, which the library's colour parser does not accept: the constructor
  throws before it has touched \<open>state.pilots\<close>. The new pilot goes in front of the first
  pilot of \<open>Object.values(state.pilots)\<close>, that is, behind that pilot's \<open>prev\<close>. The
  assignment \<open>state.pilots[this.name] = this\<close> makes an own property, except for the name
  \<open>__proto__\<close>, where it makes the pilot the prototype of \<open>state.pilots\<close>.
\<close>

definition Pilot_new :: "string \<Rightarrow> State \<Rightarrow> js_error + (pref \<times> State)" where
  "Pilot_new name st =
     (case colors st of
        [] \<Rightarrow> Inl TypeError
      | c # cs \<Rightarrow>
          (let this = pilot_fresh st;
               first = (case object_values (pilots st) of [] \<Rightarrow> None | f # fs \<Rightarrow> Some f);
               h0 = (pilot_heap st)
                      (this := \<lparr>p_name = name, p_index = length (pilots st), p_color = c,
                                flights = [], videos = [],
                                next_pilot = None, prev_pilot = None\<rparr>);
               nx = (case first of Some f \<Rightarrow> f | None \<Rightarrow> this);
               h1 = h0(this := (h0 this)\<lparr>next_pilot := Some nx\<rparr>);
               pv = (case prev_pilot (h1 nx) of Some q \<Rightarrow> q | None \<Rightarrow> this);
               h2 = h1(this := (h1 this)\<lparr>prev_pilot := Some pv\<rparr>);
               h3 = h2(pv := (h2 pv)\<lparr>next_pilot := Some this\<rparr>);
               h4 = h3(nx := (h3 nx)\<lparr>prev_pilot := Some this\<rparr>)
           in Inr (this, st\<lparr>pilots := (if name = ''__proto__'' then pilots st
                                        else set_property name this (pilots st)),
                             pilots_proto := (if name = ''__proto__'' then Some this
                                              else pilots_proto st),
                             pilot_heap := h4,
                             pilot_fresh := Suc this,
                             colors := cs\<rparr>)))"

text \<open>
  \<open>Pilot.ensure\<close> (app.js 656-663): \<open>state.pilots[name] || new Pilot(name)\<close>. What it
  returns is whatever was found under the name when that is truthy, a pilot or not.
\<close>

definition Pilot_ensure :: "string \<Rightarrow> State \<Rightarrow> js_error + (looked_up \<times> State)" where
  "Pilot_ensure name st =
     (case pilots_lookup name st of
        Pilot_ref p \<Rightarrow> Inr (Pilot_ref p, st)
      | Not_pilot True \<Rightarrow> Inr (Not_pilot True, st)
      | Not_pilot False \<Rightarrow>
          (case Pilot_new name st of
             Inl e \<Rightarrow> Inl e
           | Inr (p, st1) \<Rightarrow> Inr (Pilot_ref p, st1)))"

text \<open>
  Pilots created one after the other; a construction that throws leaves the state as it
  was. The result has the pilots that the constructions returned, in order.
\<close>

fun create_pilots :: "string list \<Rightarrow> State \<Rightarrow> pref list \<times> State" where
  "create_pilots [] st = ([], st)"
| "create_pilots (name # names) st =
     (case Pilot_new name st of
        Inl e \<Rightarrow> create_pilots names st
      | Inr (p, st1) \<Rightarrow> (let (ps, st2) = create_pilots names st1 in (p # ps, st2)))"

text \<open>
  The state before \<open>initialize\<close>: no pilot, no object, an empty timeline, all colours, and
  the clock the viewer was created with.
\<close>

definition empty_state :: "Clock \<Rightarrow> State" where
  "empty_state clock0 =
     \<lparr>pilots = [],
      pilots_proto = None,
      pilot_heap = (\<lambda>p. \<lparr>p_name = [], p_index = 0, p_color = [], flights = [], videos = [],
                          next_pilot = None, prev_pilot = None\<rparr>),
      pilot_fresh = 0,
      objects = (\<lambda>ob. \<lparr>o_class = Flight, o_name = [], o_interval = None, o_pilot = None,
                        o_rate = 1\<rparr>),
      object_fresh = 0,
      iheap = \<lparr>cells = (\<lambda>r. \<lparr>start = jump_unset, stop = jump_unset, data = None\<rparr>), fresh = 0\<rparr>,
      intervals = [],
      colors = all_colors,
      warnings = [],
      viewer_clock = clock0,
      cur_pilot = 0,
      any_pilot = 0\<rparr>"

text \<open>
  \<open>initialize\<close> (app.js 782): the pilot named by the empty string is the "any" pilot and
  the one shown at first.
\<close>

definition initialize :: "Clock \<Rightarrow> State" where
  "initialize clock0 =
     (case Pilot_ensure [] (empty_state clock0) of
        Inr (Pilot_ref p, st) \<Rightarrow> st\<lparr>cur_pilot := p, any_pilot := p\<rparr>
      | other \<Rightarrow> empty_state clock0)"

subsection \<open>Adding and removing flights and videos\<close>

definition collection_of :: "payload_class \<Rightarrow> Pilot \<Rightarrow> iref list" where
  "collection_of c p = (case c of Flight \<Rightarrow> flights p | Video \<Rightarrow> videos p)"

definition set_collection :: "payload_class \<Rightarrow> iref list \<Rightarrow> Pilot \<Rightarrow> Pilot" where
  "set_collection c refs p =
     (case c of Flight \<Rightarrow> p\<lparr>flights := refs\<rparr> | Video \<Rightarrow> p\<lparr>videos := refs\<rparr>)"

text \<open>
  \<open>Pilot.add\<close> (app.js 625-641). Reading \<open>obj.interval.data\<close> of an object without an
  interval is a TypeError. The assertions report and carry on; there is no call of
  \<open>warning\<close>.
\<close>

definition Pilot_add :: "pref \<Rightarrow> oid \<Rightarrow> State \<Rightarrow> js_error + State" where
  "Pilot_add this ob st =
     (case o_interval (objects st ob) of
        None \<Rightarrow> Inl TypeError
      | Some r \<Rightarrow>
          (let c = o_class (objects st ob);
               (coll1, h1) = removeInterval r (collection_of c (pilot_heap st this)) (iheap st);
               (coll2, h2) = addInterval r coll1 h1;
               (k, h3) = clone_interval r h2;
               (global, h4) = addInterval k (intervals st) h3
           in Inr (st\<lparr>pilot_heap := (pilot_heap st)
                                         (this := set_collection c coll2 (pilot_heap st this)),
                        iheap := h4,
                        intervals := global,
                        objects := (objects st)(ob := (objects st ob)\<lparr>o_pilot := Some this\<rparr>)\<rparr>)))"

text \<open>\<open>Pilot.remove\<close> (app.js 643-653).\<close>

definition Pilot_remove :: "pref \<Rightarrow> oid \<Rightarrow> State \<Rightarrow> js_error + State" where
  "Pilot_remove this ob st =
     (case o_interval (objects st ob) of
        None \<Rightarrow> Inl TypeError
      | Some r \<Rightarrow>
          (let c = o_class (objects st ob);
               (coll1, h1) = removeInterval r (collection_of c (pilot_heap st this)) (iheap st)
           in Inr (st\<lparr>pilot_heap := (pilot_heap st)
                                         (this := set_collection c coll1 (pilot_heap st this)),
                        iheap := h1,
                        objects := (objects st)(ob := (objects st ob)\<lparr>o_pilot := None\<rparr>)\<rparr>)))"

text \<open>
  \<open>Flight.destroy\<close> (app.js 313-338) and \<open>Video.destroy\<close> (514-541), which do the same to
  the indices: remove the object from its pilot, clear the payload of its interval object,
  and drop the interval. Timeline ranges, entities and the media element are the
  renderer's.
\<close>

definition destroy :: "oid \<Rightarrow> State \<Rightarrow> js_error + State" where
  "destroy ob st =
     (case o_pilot (objects st ob) of
        None \<Rightarrow> Inl TypeError
      | Some p \<Rightarrow>
          (case Pilot_remove p ob st of
             Inl e \<Rightarrow> Inl e
           | Inr st1 \<Rightarrow>
               (case o_interval (objects st1 ob) of
                  None \<Rightarrow> Inl TypeError
                | Some r \<Rightarrow>
                    Inr (st1\<lparr>iheap := (iheap st1)
                                 \<lparr>cells := (cells (iheap st1))
                                     (r := (cells (iheap st1) r)\<lparr>data := None\<rparr>)\<rparr>,
                              objects := (objects st1)
                                 (ob := (objects st1 ob)\<lparr>o_interval := None\<rparr>)\<rparr>))))"

text \<open>
  \<open>loaded(last)\<close> (app.js 723-750): the global collection is built anew from the
  pilots' collections, flights first, then the clock is fitted to it.
\<close>

definition add_all :: "iref list \<Rightarrow> iref list \<times> IntervalHeap \<Rightarrow> iref list \<times> IntervalHeap" where
  "add_all refs gh = fold (\<lambda>r (g, h). addInterval r g h) refs gh"

definition rebuild_intervals :: "State \<Rightarrow> iref list \<times> IntervalHeap" where
  "rebuild_intervals st =
     (let ps = map (pilot_heap st) (object_values (pilots st));
          gh1 = fold (\<lambda>p gh. add_all (flights p) gh) ps ([], iheap st)
      in fold (\<lambda>p gh. add_all (videos p) gh) ps gh1)"

definition loaded :: "oid option \<Rightarrow> State \<Rightarrow> js_error + State" where
  "loaded lst st =
     (let (global, h) = rebuild_intervals st;
          clock0 = viewer_clock st;
          clock1 = (if global \<noteq> []
                    then clock0\<lparr>startTime := start (cells h (hd global)),
                                stopTime := stop (cells h (last global))\<rparr>
                    else clock0);
          st1 = st\<lparr>intervals := global, iheap := h\<rparr>
      in case lst of
           None \<Rightarrow>
             Inr (st1\<lparr>viewer_clock :=
                        (if global \<noteq> []
                         then clock1\<lparr>currentTime := start (cells h (hd global))\<rparr>
                         else clock1)\<rparr>)
         | Some ob \<Rightarrow>
             (case o_interval (objects st ob) of
                None \<Rightarrow> Inl TypeError
              | Some r \<Rightarrow>
                  (case o_pilot (objects st ob) of
                     None \<Rightarrow> Inl TypeError
                   | Some p \<Rightarrow>
                       Inr (st1\<lparr>viewer_clock := clock1\<lparr>currentTime := start (cells h r)\<rparr>,
                                 cur_pilot := p\<rparr>))))"

subsection \<open>The ring of pilots\<close>





section \<open>Active-entity resolver\<close>

text \<open>
  The variables \<open>currentFlight\<close> and \<open>currentVideo\<close> of \<open>initialize\<close>, and the calls of
  \<open>changeFlight\<close> and \<open>changeVideo\<close> made so far, each with the old and the new payload.
  What a change does to the camera, the media element and the clock rate is not part of
  the resolver.
\<close>

datatype notification =
    Flight_changed "oid option" "oid option"
  | Video_changed "oid option" "oid option"

record Resolver =
  currentFlight :: "oid option"
  currentVideo :: "oid option"
  notifications :: "notification list"

definition payload_at :: "IntervalHeap \<Rightarrow> iref list \<Rightarrow> JulianDate \<Rightarrow> oid option" where
  "payload_at h refs date =
     (case findIntervalContainingDate (view h refs) date of
        None \<Rightarrow> None
      | Some fint \<Rightarrow> data fint)"

definition resolve_flight :: "State \<Rightarrow> oid option" where
  "resolve_flight st =
     payload_at (iheap st) (flights (pilot_heap st (cur_pilot st)))
       (currentTime (viewer_clock st))"

definition resolve_video :: "State \<Rightarrow> oid option" where
  "resolve_video st =
     (let video = payload_at (iheap st) (videos (pilot_heap st (cur_pilot st)))
                    (currentTime (viewer_clock st))
      in if video = None \<and> cur_pilot st \<noteq> any_pilot st
         then payload_at (iheap st) (videos (pilot_heap st (any_pilot st)))
                (currentTime (viewer_clock st))
         else video)"

definition changeFlight :: "oid option \<Rightarrow> Resolver \<Rightarrow> Resolver" where
  "changeFlight flight r =
     r\<lparr>currentFlight := flight,
       notifications := notifications r @ [Flight_changed (currentFlight r) flight]\<rparr>"

definition changeVideo :: "oid option \<Rightarrow> Resolver \<Rightarrow> Resolver" where
  "changeVideo video r =
     r\<lparr>currentVideo := video,
       notifications := notifications r @ [Video_changed (currentVideo r) video]\<rparr>"

text \<open>The \<open>onTick\<close> listener (app.js 1095-1124).\<close>

definition onTick :: "State \<Rightarrow> Resolver \<Rightarrow> Resolver" where
  "onTick st r =
     (let flight = resolve_flight st;
          video = resolve_video st;
          r1 = (if flight \<noteq> currentFlight r then changeFlight flight r else r)
      in if video \<noteq> currentVideo r1 then changeVideo video r1 else r1)"

text \<open>A sequence of ticks, each with the state of the application at that tick.\<close>

fun run_ticks :: "State list \<Rightarrow> Resolver \<Rightarrow> Resolver" where
  "run_ticks [] r = r"
| "run_ticks (st # sts) r = run_ticks sts (onTick st r)"

text \<open>
  The transitions of a sequence of payloads: the pairs of neighbours that differ, in order.
\<close>

definition transitions :: "'a list \<Rightarrow> ('a \<times> 'a) list" where
  "transitions xs = filter (\<lambda>ab. fst ab \<noteq> snd ab) (zip xs (tl xs))"

fun is_flight_change :: "notification \<Rightarrow> bool" where
  "is_flight_change (Flight_changed a b) = True"
| "is_flight_change (Video_changed a b) = False"

text \<open>
  The Delete key (app.js 1032-1043): the active video, or else the active flight, is
  deactivated and destroyed.
\<close>

definition keypress_delete :: "State \<Rightarrow> Resolver \<Rightarrow> js_error + (State \<times> Resolver)" where
  "keypress_delete st r =
     (case currentVideo r of
        Some video \<Rightarrow>
          (case destroy video st of
             Inl e \<Rightarrow> Inl e
           | Inr st1 \<Rightarrow> Inr (st1, changeVideo None r))
      | None \<Rightarrow>
          (case currentFlight r of
             Some flight \<Rightarrow>
               (case destroy flight st of
                  Inl e \<Rightarrow> Inl e
                | Inr st1 \<Rightarrow> Inr (st1, changeFlight None r))
           | None \<Rightarrow> Inr (st, r)))"

section \<open>Creating flights and videos\<close>

text \<open>
  \<open>interval = new TimeInterval({...}); this.interval = interval\<close>, the step of both
  \<open>create\<close> functions before \<open>pilot.add(this)\<close>.
\<close>

definition attach_interval :: "oid \<Rightarrow> TimeInterval \<Rightarrow> State \<Rightarrow> State" where
  "attach_interval ob iv st =
     (let (r, h) = new_TimeInterval iv (iheap st)
      in st\<lparr>iheap := h,
            objects := (objects st)(ob := (objects st ob)\<lparr>o_interval := Some r\<rparr>)\<rparr>)"

text \<open>\<open>Pilot.change\<close> (app.js 665-672): the pilot shown.\<close>

definition Pilot_change :: "pref \<Rightarrow> State \<Rightarrow> State" where
  "Pilot_change p st = st\<lparr>cur_pilot := p\<rparr>"

text \<open>
  \<open>new Flight(igcData, filename)\<close> and \<open>Flight.create\<close> (app.js 163-311), as far as the
  indices go. \<open>samples\<close> are the fixes of the track, converted to timestamps and positions.
  A track without fixes leaves \<open>endTime\<close> null, and \<open>endTime.clone()\<close> throws. When
  \<open>Pilot.ensure\<close> returned something that is not a pilot, \<open>pilot.add\<close> is not a function
  and the call throws.
\<close>

definition Flight_new :: "string \<Rightarrow> State \<Rightarrow> oid \<times> State" where
  "Flight_new name st =
     (object_fresh st,
      st\<lparr>objects := (objects st)
             (object_fresh st :=
                \<lparr>o_class = Flight, o_name = name, o_interval = None, o_pilot = None,
                 o_rate = 1\<rparr>),
         object_fresh := Suc (object_fresh st)\<rparr>)"

definition Flight_create :: "oid \<Rightarrow> string \<Rightarrow> Sample list \<Rightarrow> State \<Rightarrow> js_error + State" where
  "Flight_create ob pilotName samples st =
     (case Pilot_ensure pilotName st of
        Inl e \<Rightarrow> Inl e
      | Inr (pilot, st1) \<Rightarrow>
          (case smoother samples of
             None \<Rightarrow> Inl TypeError
           | Some tracker \<Rightarrow>
               (case samples of
                  [] \<Rightarrow> Inl TypeError
                | s # ss \<Rightarrow>
                    (case pilot of
                       Not_pilot b \<Rightarrow> Inl TypeError
                     | Pilot_ref p \<Rightarrow>
                         Pilot_add p ob
                           (attach_interval ob
                              \<lparr>start = time s, stop = time (last samples), data = Some ob\<rparr>
                              st1)))))"

definition Flight_load :: "string \<Rightarrow> string \<Rightarrow> Sample list \<Rightarrow> State \<Rightarrow> js_error + (oid \<times> State)" where
  "Flight_load name pilotName samples st =
     (let (ob, st1) = Flight_new name st
      in case Flight_create ob pilotName samples st1 of
           Inl e \<Rightarrow> Inl e
         | Inr st2 \<Rightarrow> Inr (ob, st2))"

subsection \<open>Videos and images\<close>

text \<open>
  An entry of \<open>metadata.videos\<close>. The pilot is a string (\<open>Pilot.ensure\<close> asserts it) and the
  timestamp is taken as parsed; the other fields are as loaded.
\<close>

record VideoData =
  filename :: string
  vd_pilot :: string
  vd_timestamp :: JulianDate
  vd_duration :: jsval
  vd_rate :: jsval
  vd_longitude :: jsval
  vd_latitude :: jsval
  vd_altitude :: jsval

definition DEFAULT_DURATION :: real where
  "DEFAULT_DURATION = 5"

definition IMAGE_EXTS :: "string list" where
  "IMAGE_EXTS = [''.jpg'', ''.jpeg'', ''.png'']"

definition toLowerCase :: "string \<Rightarrow> string" where
  "toLowerCase s =
     map (\<lambda>c. case map_of (zip ''ABCDEFGHIJKLMNOPQRSTUVWXYZ'' ''abcdefghijklmnopqrstuvwxyz'') c of
                 Some l \<Rightarrow> l
               | None \<Rightarrow> c) s"

definition endsWith :: "string \<Rightarrow> string \<Rightarrow> bool" where
  "endsWith s ext = (length ext \<le> length s \<and> drop (length s - length ext) s = ext)"

text \<open>\<open>assumeFileType\<close> (app.js 151-160): the first extension list the file name matches.\<close>

fun assumeFileType :: "string \<Rightarrow> string list list \<Rightarrow> string list option" where
  "assumeFileType name [] = None"
| "assumeFileType name (exts # others) =
     (if length (filter (endsWith (toLowerCase name)) exts) > 0 then Some exts
      else assumeFileType name others)"

text \<open>\<open>new Video(videoData)\<close> (app.js 365-374): the rate starts at 1.\<close>

definition Video_new :: "VideoData \<Rightarrow> State \<Rightarrow> oid \<times> State" where
  "Video_new videoData st =
     (object_fresh st,
      st\<lparr>objects := (objects st)
             (object_fresh st :=
                \<lparr>o_class = Video, o_name = filename videoData, o_interval = None,
                 o_pilot = None, o_rate = 1\<rparr>),
         object_fresh := Suc (object_fresh st)\<rparr>)"

definition warn :: "warning \<Rightarrow> State \<Rightarrow> State" where
  "warn w st = st\<lparr>warnings := warnings st @ [w]\<rparr>"

text \<open>
  The rate of \<open>Video.create\<close> (app.js 385-390). \<open>NaN\<close> is a number that is not truthy, so the
  last case is never reached with it.
\<close>

definition validate_rate :: "oid \<Rightarrow> VideoData \<Rightarrow> State \<Rightarrow> State" where
  "validate_rate ob videoData st =
     (if truthy (vd_rate videoData)
      then (if \<not> is_number (vd_rate videoData)
               \<or> (case vd_rate videoData of JNum x \<Rightarrow> x \<le> 0 | v \<Rightarrow> False)
            then warn (Invalid_rate (vd_rate videoData)) st
            else (case vd_rate videoData of
                    JNum x \<Rightarrow> st\<lparr>objects := (objects st)(ob := (objects st ob)\<lparr>o_rate := x\<rparr>)\<rparr>
                  | v \<Rightarrow> st))
      else st)"

text \<open>
  \<open>parseDuration\<close> (app.js 128-144). \<open>parseIso\<close> stands for the library's parser of a time of day
  (\<open>None\<close> when it throws). The result is only used under \<open>|| DEFAULT_DURATION\<close>, so
  \<open>undefined\<close> and \<open>NaN\<close> are both \<open>None\<close>.
\<close>

definition parseDuration :: "(string \<Rightarrow> real option) \<Rightarrow> jsval \<Rightarrow> State \<Rightarrow> real option \<times> State" where
  "parseDuration parseIso v st =
     (case v of
        JNum x \<Rightarrow> (Some x, st)
      | JNaN \<Rightarrow> (None, st)
      | JStr s \<Rightarrow>
          (if s = [] then (None, st)
           else (case parseIso s of
                   Some x \<Rightarrow> (Some x, st)
                 | None \<Rightarrow> (None, warn (Unparsed_duration v) st)))
      | other \<Rightarrow> (if truthy v then (None, warn (Unparsed_duration v) st) else (None, st)))"

text \<open>\<open>completeVideo\<close> (app.js 420-445).\<close>

definition completeVideo ::
  "oid \<Rightarrow> VideoData \<Rightarrow> pref \<Rightarrow> (string \<Rightarrow> real option) \<Rightarrow> State \<Rightarrow> js_error + State" where
  "completeVideo ob videoData p parseIso st =
     (let (parsed, st1) = parseDuration parseIso (vd_duration videoData) st;
          duration = (case parsed of
                        Some x \<Rightarrow> if x \<noteq> 0 then x else DEFAULT_DURATION
                      | None \<Rightarrow> DEFAULT_DURATION)
      in Pilot_add p ob
           (attach_interval ob
              \<lparr>start = vd_timestamp videoData,
               stop = addSeconds (vd_timestamp videoData)
                        (duration * o_rate (objects st1 ob)),
               data = Some ob\<rparr>
              st1))"

text \<open>The position given in the metadata (app.js 453-466).\<close>

definition js_or :: "jsval \<Rightarrow> jsval \<Rightarrow> jsval" where
  "js_or a b = (if truthy a then a else b)"

definition abs_above :: "jsval \<Rightarrow> real \<Rightarrow> bool" where
  "abs_above v bound = (case v of JNum x \<Rightarrow> \<bar>x\<bar> > bound | other \<Rightarrow> False)"

definition check_position :: "VideoData \<Rightarrow> State \<Rightarrow> State" where
  "check_position videoData st =
     (if truthy (vd_longitude videoData) \<or> truthy (vd_latitude videoData)
         \<or> truthy (vd_altitude videoData)
      then (let longitude = js_or (vd_longitude videoData) (JNum 0);
                latitude = js_or (vd_latitude videoData) (JNum 0);
                altitude = js_or (vd_altitude videoData) (JNum 0)
            in if \<not> is_number longitude \<or> abs_above longitude 180
                  \<or> \<not> is_number latitude \<or> abs_above latitude 90
                  \<or> \<not> is_number altitude
                  \<or> (case altitude of JNum x \<Rightarrow> x < 0 | other \<Rightarrow> False)
               then warn (Invalid_position latitude longitude altitude) st
               else st)
      else st)"

text \<open>
  \<open>Video.create\<close> (app.js 381-512), without the media element and the billboard. \<open>media\<close>
  is the duration the media element reports once its metadata is loaded, \<open>None\<close> when
  that does not happen within the ten seconds of the timeout. When \<open>Pilot.ensure\<close>
  returned something that is not a pilot, it has no \<open>flights\<close> and no \<open>color\<close>, and reading
  \<open>pilot.flights.findDataForIntervalContainingDate\<close> (without a position) or
  \<open>pilot.color.toCssHexString\<close> (with one) throws.
\<close>

definition Video_create ::
  "oid \<Rightarrow> VideoData \<Rightarrow> (string \<Rightarrow> real option) \<Rightarrow> real option \<Rightarrow> State \<Rightarrow> js_error + State" where
  "Video_create ob videoData parseIso media st =
     (let st1 = validate_rate ob videoData st;
          isImage = (assumeFileType (filename videoData) [IMAGE_EXTS] \<noteq> None)
      in case Pilot_ensure (vd_pilot videoData) st1 of
           Inl e \<Rightarrow> Inl e
         | Inr (pilot, st2) \<Rightarrow>
             (let st3 = check_position videoData st2
              in case pilot of
                   Not_pilot b \<Rightarrow> Inl TypeError
                 | Pilot_ref p \<Rightarrow>
                     if isImage \<or> truthy (vd_duration videoData)
                     then completeVideo ob videoData p parseIso st3
                     else (case media of
                             None \<Rightarrow> Inl MediaTimeout
                           | Some d \<Rightarrow>
                               if d \<noteq> 0
                               then completeVideo ob (videoData\<lparr>vd_duration := JNum d\<rparr>) p
                                      parseIso st3
                               else Inl NoMediaDuration)))"

definition Video_load ::
  "VideoData \<Rightarrow> (string \<Rightarrow> real option) \<Rightarrow> real option \<Rightarrow> State \<Rightarrow> js_error + (oid \<times> State)" where
  "Video_load videoData parseIso media st =
     (let (ob, st1) = Video_new videoData st
      in case Video_create ob videoData parseIso media st1 of
           Inl e \<Rightarrow> Inl e
         | Inr st2 \<Rightarrow> Inr (ob, st2))"

section \<open>Concrete scenarios\<close>

text \<open>
  Tracks, a picture and sessions used as concrete inputs below. All times are seconds of
  day 2460000. \<open>fix_at s\<close> is a fix of a track at second \<open>s\<close>; \<open>clip\<close> is a picture of
  pilot \<open>ann\<close> shown from second 20 for 10 seconds; \<open>no_parse\<close> is a parser that accepts
  no string.
\<close>

definition fix_at :: "real \<Rightarrow> Sample" where
  "fix_at s = \<lparr>position = \<lparr>cx = 0, cy = 0, cz = 0\<rparr>, time = at_day 2460000 s\<rparr>"

definition clip :: VideoData where
  "clip =
     \<lparr>filename = ''clip.PNG'', vd_pilot = ''ann'', vd_timestamp = at_day 2460000 20,
      vd_duration = JNum 10, vd_rate = JUndefined,
      vd_longitude = JUndefined, vd_latitude = JUndefined, vd_altitude = JUndefined\<rparr>"

definition no_parse :: "string \<Rightarrow> real option" where
  "no_parse s = None"

definition resolver_init :: Resolver where
  "resolver_init = \<lparr>currentFlight = None, currentVideo = None, notifications = []\<rparr>"

text \<open>
  A session: \<open>load\<close> (app.js 706-720) loads one flight of \<open>ann\<close> from 10 to 40 and the
  picture, shows the first named pilot and calls \<open>loaded(null)\<close>. Then a tick, after which
  the flight is the active one, and the Delete key.
\<close>

definition flight_and_clip :: "js_error + State" where
  "flight_and_clip =
     (case Flight_load ''a.igc'' ''ann'' [fix_at 10, fix_at 40] (initialize late_clock) of
        Inl e \<Rightarrow> Inl e
      | Inr (a, st1) \<Rightarrow>
          (case Video_load clip no_parse None st1 of
             Inl e \<Rightarrow> Inl e
           | Inr (v, st2) \<Rightarrow> loaded None (Pilot_change 1 st2)))"

definition delete_active :: "js_error + State \<Rightarrow> js_error + (State \<times> Resolver)" where
  "delete_active loading =
     (case loading of
        Inl e \<Rightarrow> Inl e
      | Inr st \<Rightarrow> keypress_delete st (onTick st resolver_init))"

text \<open>
  A pilot with one flight from 10 to 20 in her index, and a second flight from 15 to 25
  that has its interval and is about to be added: the state in which \<open>Flight.create\<close> calls
  \<open>pilot.add(this)\<close> for the second flight.
\<close>

definition one_flight :: State where
  "one_flight =
     (case Flight_load ''a.igc'' ''ann'' [fix_at 10, fix_at 20] (initialize late_clock) of
        Inl e \<Rightarrow> initialize late_clock
      | Inr (a, st) \<Rightarrow> st)"

definition second_flight :: State where
  "second_flight =
     attach_interval 1
       \<lparr>start = at_day 2460000 15, stop = at_day 2460000 25, data = Some 1\<rparr>
       (snd (Flight_new ''b.igc'' one_flight))"

text \<open>
  The rate field of the metadata: present (the entry has the field), and a number that is
  strictly positive.
\<close>

definition rate_present :: "jsval \<Rightarrow> bool" where
  "rate_present v = (v \<noteq> JUndefined)"

definition strictly_positive_number :: "jsval \<Rightarrow> bool" where
  "strictly_positive_number v = (case v of JNum x \<Rightarrow> 0 < x | other \<Rightarrow> False)"

section \<open>Notions for the proofs about the interval heap\<close>

text \<open>
  \<open>heap_le h h1\<close>: the heap \<open>h1\<close> has all the objects of \<open>h\<close>, unchanged, and maybe more.
  \<open>others h d refs\<close>: the references are allocated and none of the intervals carries the
  payload \<open>d\<close>.
\<close>

definition heap_le :: "IntervalHeap \<Rightarrow> IntervalHeap \<Rightarrow> bool" where
  "heap_le h h1 = (fresh h \<le> fresh h1 \<and> (\<forall>r < fresh h. cells h1 r = cells h r))"

definition others :: "IntervalHeap \<Rightarrow> oid option \<Rightarrow> iref list \<Rightarrow> bool" where
  "others h d refs = list_all (\<lambda>e. e < fresh h \<and> data (cells h e) \<noteq> d) refs"

text \<open>
  \<open>key\<close>: the day number and the seconds of a date as a pair; \<open>compare\<close> is the
  lexicographic order of the pairs. \<open>cut_span iv ivs\<close>: what \<open>remove_span\<close> makes of the
  intervals of a collection, without the heap.
\<close>

definition key :: "JulianDate \<Rightarrow> int \<times> real" where
  "key d = (dayNumber d, secondsOfDay d)"

fun cut_span :: "TimeInterval \<Rightarrow> TimeInterval list \<Rightarrow> TimeInterval list" where
  "cut_span iv [] = []"
| "cut_span iv (e # es) =
     (if compare (stop e) (start iv) \<le> 0 \<or> compare (stop iv) (start e) \<le> 0
      then e # cut_span iv es
      else (if lessThan_jd (start e) (start iv)
            then [\<lparr>start = start e, stop = start iv, data = data e\<rparr>] else [])
           @ (if greaterThan_jd (stop e) (stop iv)
              then [\<lparr>start = stop iv, stop = stop e, data = data e\<rparr>] else [])
           @ cut_span iv es)"

section \<open>Media synchronizer: playback rate\<close>

lemma syncVideo_rate_eq:
  "playbackRate (syncVideo clock istart rate element)
     = (if multiplier clock < 0 then SLOW_FORWARD else 1)"
  by (simp add: syncVideo_def Let_def)

lemma syncTicks_length:
  "length (syncTicks clocks istart rate element) = length clocks"
  by (induction clocks arbitrary: element) simp_all

lemma syncTicks_nth_rate:
  "i < length clocks \<Longrightarrow>
     playbackRate (syncTicks clocks istart rate element ! i)
       = (if multiplier (clocks ! i) < 0 then SLOW_FORWARD else 1)"
proof (induction clocks arbitrary: element i)
  case Nil
  then show ?case by simp
next
  case (Cons c cs)
  show ?case
  proof (cases i)
    case 0
    then show ?thesis by (simp add: syncVideo_rate_eq)
  next
    case (Suc j)
    with Cons.prems have "j < length cs" by simp
    from Cons.IH[OF this] Suc show ?thesis by simp
  qed
qed

text \<open>
  Claim C8. While a video is active, a tick whose clock rate is negative (of any
  magnitude) leaves the element's playback rate at the fixed slow forward value \<open>1/10\<close>, a
  tick whose clock rate is not negative leaves it at \<open>1\<close>, and the value is positive in
  both cases: the element is never given a negative playback rate.
\<close>

theorem syncVideo_playbackRate:
  "playbackRate (syncVideo clock istart rate element)
     = (if multiplier clock < 0 then SLOW_FORWARD else 1)
   \<and> 0 < SLOW_FORWARD
   \<and> 0 < playbackRate (syncVideo clock istart rate element)"
  by (simp add: syncVideo_rate_eq SLOW_FORWARD_def)

section \<open>Trajectory smoother: constant input\<close>

lemma c3_average_const:
  "n \<noteq> 0 \<Longrightarrow> c3_divideByScalar (c3_scale (real n) p) (real n) = p"
  by (simp add: c3_divideByScalar_def c3_scale_def)

lemma c3_scale_push: "c3_add (c3_scale (real n) p) p = c3_scale (1 + real n) p"
  by (simp add: c3_add_def c3_scale_def algebra_simps)

lemma c3_scale_pop: "c3_subtract (c3_scale (1 + real n) p) p = c3_scale (real n) p"
  by (simp add: c3_subtract_def c3_scale_def algebra_simps)

lemma tracker_const_init: "tracker_const p tracker_init"
  by (simp add: tracker_const_def tracker_init_def c3_scale_def)

lemma tracker_shift_const:
  assumes "tracker_const p t" "tracker_shift drain t = Some t1"
  shows "tracker_const p t1"
  using assms
  by (auto simp: tracker_shift_def tracker_const_def c3_scale_pop
           split: if_splits list.splits)

lemma tracker_emit_const:
  assumes "tracker_const p t" "tracker_emit drain t = Some t1"
  shows "tracker_const p t1"
proof (cases "(drain \<and> length (trackerStack t) \<noteq> 0)
                \<or> length (trackerStack t) > TRACKER_WINDOW div 2")
  case True
  then have n: "length (trackerStack t) \<noteq> 0" by auto
  from assms(1) have "c3_divideByScalar (trackerCartesian t) (real (length (trackerStack t))) = p"
    using c3_average_const[OF n, of p] by (simp add: tracker_const_def)
  with assms True show ?thesis
    by (auto simp: tracker_emit_def tracker_const_def Let_def split: if_splits)
next
  case False
  with assms show ?thesis
    by (auto simp: tracker_emit_def Let_def split: if_splits)
qed

lemma tracker_emit_returns:
  "\<exists>t1. tracker_emit drain t = Some t1"
proof -
  have "nat (max 0 (int n - int (TRACKER_WINDOW div 2))) < n" if "n \<noteq> 0" for n :: nat
    using that unfolding TRACKER_WINDOW_def by auto
  then show ?thesis
    by (cases "length (trackerStack t) = 0") (auto simp: tracker_emit_def Let_def)
qed

lemma tracker_shift_returns:
  "(drain \<longrightarrow> trackerStack t \<noteq> []) \<Longrightarrow> \<exists>t1. tracker_shift drain t = Some t1"
  by (auto simp: tracker_shift_def TRACKER_WINDOW_def split: list.splits)

lemma updateTracker_returns:
  "(drain \<longrightarrow> trackerStack t \<noteq> []) \<Longrightarrow> \<exists>t1. updateTracker drain t = Some t1"
  using tracker_shift_returns[of drain t] tracker_emit_returns
  by (fastforce simp: updateTracker_def split: option.splits)

lemma updateTracker_const:
  assumes "tracker_const p t" "updateTracker drain t = Some t1"
  shows "tracker_const p t1"
  using assms
  by (auto simp: updateTracker_def split: option.splits
           dest: tracker_shift_const tracker_emit_const)

lemma tracker_push_const:
  assumes "tracker_const p t" "position s = p"
  shows "tracker_const p (t\<lparr>trackerStack := trackerStack t @ [s],
                             trackerCartesian := c3_add (trackerCartesian t) (position s)\<rparr>)"
  using assms by (simp add: tracker_const_def c3_scale_push)

lemma tracker_feed_returns: "\<exists>t1. tracker_feed ss t = Some t1"
proof (induction ss arbitrary: t)
  case Nil
  then show ?case by simp
next
  case (Cons s ss)
  let ?t = "t\<lparr>trackerStack := trackerStack t @ [s],
               trackerCartesian := c3_add (trackerCartesian t) (position s)\<rparr>"
  obtain t1 where "updateTracker False ?t = Some t1"
    using updateTracker_returns[of False ?t] by auto
  with Cons.IH[of t1] show ?case by simp
qed

lemma tracker_feed_const:
  assumes "tracker_const p t" "list_all (\<lambda>s. position s = p) ss" "tracker_feed ss t = Some t1"
  shows "tracker_const p t1"
  using assms
proof (induction ss arbitrary: t)
  case Nil
  then show ?case by simp
next
  case (Cons s ss)
  let ?t = "t\<lparr>trackerStack := trackerStack t @ [s],
               trackerCartesian := c3_add (trackerCartesian t) (position s)\<rparr>"
  from Cons.prems obtain t2 where u: "updateTracker False ?t = Some t2"
    and f: "tracker_feed ss t2 = Some t1"
    by (auto split: option.splits)
  from Cons.prems have "tracker_const p ?t" using tracker_push_const[of p t s] by simp
  then have "tracker_const p t2" using u by (rule updateTracker_const)
  with Cons.IH[of t2] Cons.prems f show ?case by simp
qed

lemma tracker_flush_returns: "\<exists>t1. tracker_flush t = Some t1"
proof (induction t rule: tracker_flush.induct)
  case (1 t)
  show ?case
  proof (cases "length (trackerStack t) > 0")
    case True
    then obtain t2 where u: "updateTracker True t = Some t2"
      using updateTracker_returns[of True t] by auto
    from "1.IH"[OF True u] True u show ?thesis by simp
  next
    case False
    then show ?thesis by simp
  qed
qed

lemma tracker_flush_const:
  "tracker_const p t \<Longrightarrow> tracker_flush t = Some t1 \<Longrightarrow> tracker_const p t1"
proof (induction t rule: tracker_flush.induct)
  case (1 t)
  show ?case
  proof (cases "length (trackerStack t) > 0")
    case True
    with "1.prems" obtain t2 where u: "updateTracker True t = Some t2"
      and f: "tracker_flush t2 = Some t1"
      by (auto split: option.splits)
    from "1.prems"(1) u have "tracker_const p t2" by (rule updateTracker_const)
    from "1.IH"[OF True u this f] show ?thesis .
  next
    case False
    with "1.prems" show ?thesis by simp
  qed
qed

lemma updateTracker_keeps_emitted:
  "updateTracker drain t = Some t1 \<Longrightarrow> trackerPositions t \<noteq> [] \<Longrightarrow> trackerPositions t1 \<noteq> []"
  by (auto simp: updateTracker_def tracker_shift_def tracker_emit_def Let_def
           split: option.splits if_splits list.splits)

lemma snoc_eq_Cons_length: "xs @ [s] = a # r \<Longrightarrow> length r = length xs"
  by (drule arg_cong[where f = length]) simp

lemma updateTracker_push_length:
  assumes "updateTracker False (t\<lparr>trackerStack := trackerStack t @ [s],
                                     trackerCartesian := c\<rparr>) = Some t1"
  shows "length (trackerStack t1)
           = (if Suc (length (trackerStack t)) \<ge> TRACKER_WINDOW
              then length (trackerStack t) else Suc (length (trackerStack t)))"
    and "length (trackerStack t1) > TRACKER_WINDOW div 2 \<Longrightarrow> trackerPositions t1 \<noteq> []"
  using assms
  by (auto simp: updateTracker_def tracker_shift_def tracker_emit_def Let_def
           split: option.splits if_splits list.splits dest: snoc_eq_Cons_length)

lemma tracker_feed_emits:
  assumes "tracker_feed ss t = Some t1" "length (trackerStack t) < TRACKER_WINDOW"
  shows "length (trackerStack t1) = min (TRACKER_WINDOW - 1) (length (trackerStack t) + length ss)
         \<and> (trackerPositions t \<noteq> [] \<longrightarrow> trackerPositions t1 \<noteq> [])
         \<and> (ss \<noteq> [] \<and> length (trackerStack t1) > TRACKER_WINDOW div 2
              \<longrightarrow> trackerPositions t1 \<noteq> [])"
  using assms
proof (induction ss arbitrary: t)
  case Nil
  then show ?case by (simp add: TRACKER_WINDOW_def)
next
  case (Cons s ss)
  let ?t = "t\<lparr>trackerStack := trackerStack t @ [s],
               trackerCartesian := c3_add (trackerCartesian t) (position s)\<rparr>"
  from Cons.prems obtain t2 where u: "updateTracker False ?t = Some t2"
    and f: "tracker_feed ss t2 = Some t1"
    by (auto split: option.splits)
  note len = updateTracker_push_length(1)[OF u] and em = updateTracker_push_length(2)[OF u]
  from len Cons.prems(2) have l2: "length (trackerStack t2) < TRACKER_WINDOW"
    by (auto split: if_splits)
  note ih = Cons.IH[OF f l2]
  have keep: "trackerPositions t \<noteq> [] \<Longrightarrow> trackerPositions t2 \<noteq> []"
    using updateTracker_keeps_emitted[OF u] by simp
  show ?case
  proof (intro conjI impI)
    show "length (trackerStack t1)
            = min (TRACKER_WINDOW - 1) (length (trackerStack t) + length (s # ss))"
      using ih len Cons.prems(2) by (auto simp: TRACKER_WINDOW_def split: if_splits)
    show "trackerPositions t1 \<noteq> []" if "trackerPositions t \<noteq> []"
      using ih keep that by blast
    show "trackerPositions t1 \<noteq> []"
      if "s # ss \<noteq> [] \<and> length (trackerStack t1) > TRACKER_WINDOW div 2"
    proof (cases ss)
      case Nil
      with f have "t1 = t2" by simp
      with em that show ?thesis by simp
    next
      case (Cons a list)
      with ih that show ?thesis by simp
    qed
  qed
qed

lemma tracker_flush_keeps_emitted:
  "tracker_flush t = Some t1 \<Longrightarrow> trackerPositions t \<noteq> [] \<Longrightarrow> trackerPositions t1 \<noteq> []"
proof (induction t rule: tracker_flush.induct)
  case (1 t)
  show ?case
  proof (cases "length (trackerStack t) > 0")
    case True
    with "1.prems" obtain t2 where u: "updateTracker True t = Some t2"
      and f: "tracker_flush t2 = Some t1"
      by (auto split: option.splits)
    from updateTracker_keeps_emitted[OF u "1.prems"(2)] "1.IH"[OF True u f]
    show ?thesis by simp
  next
    case False
    with "1.prems" show ?thesis by simp
  qed
qed

text \<open>
  Claim C7. For an input of at least \<open>W = 128\<close> samples that all carry the same position
  \<open>p\<close>, the smoother returns (no read of a missing sample), it emits at least one smoothed
  sample, and every smoothed sample it emits, while streaming and during the flush at the
  end of the input, has position exactly \<open>p\<close>. Positions are exact reals here, so "up to
  floating-point epsilon" is equality.
\<close>

theorem smoother_constant:
  assumes "\<forall>s \<in> set samples. position s = p" and "TRACKER_WINDOW \<le> length samples"
  shows "\<exists>t. smoother samples = Some t
           \<and> trackerPositions t \<noteq> []
           \<and> (\<forall>e \<in> set (trackerPositions t). snd e = p)"
proof -
  obtain t0 where f: "tracker_feed samples tracker_init = Some t0"
    using tracker_feed_returns by blast
  obtain t where fl: "tracker_flush t0 = Some t"
    using tracker_flush_returns by blast
  from assms(1) have "list_all (\<lambda>s. position s = p) samples"
    by (simp add: list_all_iff)
  with tracker_const_init[of p] have "tracker_const p t0"
    using f by (rule tracker_feed_const)
  from this fl have c: "tracker_const p t" by (rule tracker_flush_const)
  from f fl have "smoother samples = Some t" by (simp add: smoother_def)
  moreover have "trackerPositions t \<noteq> []"
  proof -
    from tracker_feed_emits[OF f] assms(2)
    have "trackerPositions t0 \<noteq> []"
      by (auto simp: tracker_init_def TRACKER_WINDOW_def)
    with fl show ?thesis by (rule tracker_flush_keeps_emitted)
  qed
  moreover from c have "\<forall>e \<in> set (trackerPositions t). snd e = p"
    by (simp add: tracker_const_def list_all_iff)
  ultimately show ?thesis by blast
qed

theorem smoother_constant_witness:
  "\<exists>t. smoother (map sample0 [0..<128]) = Some t
        \<and> trackerPositions t \<noteq> []
        \<and> list_all (\<lambda>e. snd e = \<lparr>cx = 1, cy = 2, cz = 3\<rparr>) (trackerPositions t)"
  using smoother_constant[of "map sample0 [0..<128]" "\<lparr>cx = 1, cy = 2, cz = 3\<rparr>"]
  by (simp add: sample0_def TRACKER_WINDOW_def list_all_iff)

section \<open>Seek engine: the handler returns\<close>

lemma indexOf_range: "indexOf ivs date < int (length ivs)"
proof -
  have "length (takeWhile (\<lambda>e. compare (start e) date \<le> 0) ivs) \<le> length ivs"
    by (rule length_takeWhile_le)
  then show ?thesis
    by (auto simp: indexOf_def Let_def bnot_def)
qed

lemma get_Some_iff: "(\<exists>iv. get ivs i = Some iv) \<longleftrightarrow> (0 \<le> i \<and> i < int (length ivs))"
  by (auto simp: get_def)

lemma get_in_set: "get ivs i = Some iv \<Longrightarrow> iv \<in> set ivs"
  by (auto simp: get_def split: if_splits)

lemma match_inside_returns:
  "index < int (length ivs) \<Longrightarrow> \<exists>j. match_inside left ivs current index = Some j \<and> j < int (length ivs)"
  by (auto simp: match_inside_def get_def bnot_def)

lemma match_outside_range:
  "index < int (length ivs) \<Longrightarrow> match_outside left ivs current index < int (length ivs)"
proof -
  have g: "k < int (length ivs)" if "get ivs k = Some iv" for k iv
    using that by (auto simp: get_def split: if_splits)
  assume "index < int (length ivs)"
  then show ?thesis
    by (auto simp: match_outside_def split: option.splits dest: g)
qed

lemma epsilon_match_returns:
  "\<exists>j. epsilon_match left ivs current = Some j \<and> j < int (length ivs)"
proof -
  obtain j where j: "match_inside left ivs current (indexOf ivs current) = Some j"
    "j < int (length ivs)"
    using match_inside_returns[OF indexOf_range] by blast
  with match_outside_range[OF j(2)] show ?thesis
    by (simp add: epsilon_match_def)
qed

lemma seek_inside_returns:
  "index < int (length ivs) \<Longrightarrow> \<exists>j. seek_inside left ctrl ivs clock seconds index = Some j"
  by (auto simp: seek_inside_def get_def Let_def)

lemma seek_edge_returns:
  "index < int (length ivs) \<Longrightarrow> \<exists>j. seek_edge left ivs index jump = Some j"
  by (auto simp: seek_edge_def get_def)

lemma seek_returns: "\<exists>r. seek left ctrl ivs clock = Some r"
proof (cases "length ivs = 0")
  case True
  then show ?thesis by (simp add: seek_def)
next
  case False
  obtain index where e: "epsilon_match left ivs (currentTime clock) = Some index"
    and r: "index < int (length ivs)"
    using epsilon_match_returns by blast
  let ?s = "JUMP_SECONDS * (if left then - 1 else 1) * \<bar>multiplier clock\<bar>"
  obtain j1 where i: "seek_inside left ctrl ivs clock ?s index = Some j1"
    using seek_inside_returns[OF r] by blast
  obtain j where g: "seek_edge left ivs index (seek_outside left ctrl ivs clock ?s index j1) = Some j"
    using seek_edge_returns[OF r] by blast
  from False e i g show ?thesis
    by (simp add: seek_def Let_def)
qed



lemma seek_outside_snap_target:
  "jump = jump_unset \<or> jump \<in> snap_targets left ivs clock \<Longrightarrow>
   seek_outside left True ivs clock seconds index jump \<in> snap_targets left ivs clock"
  by (auto simp: seek_outside_def snap_targets_def jump_unset_def
           split: option.splits dest: get_in_set)

lemma seek_inside_snap_target:
  "seek_inside left True ivs clock seconds index = Some jump \<Longrightarrow>
   jump = jump_unset \<or> jump \<in> snap_targets left ivs clock"
  by (auto simp: seek_inside_def snap_targets_def
           split: option.splits if_splits dest: get_in_set)

lemma seek_edge_snap_target:
  "seek_edge left ivs index jump = Some j \<Longrightarrow> jump \<in> snap_targets left ivs clock \<Longrightarrow>
   j \<in> snap_targets left ivs clock"
  by (auto simp: seek_edge_def snap_targets_def
           split: option.splits if_splits dest: get_in_set)

lemma compare_refl [simp]: "compare x x = 0"
  by (simp add: compare_def)

lemma seek_commit_target:
  assumes "jump \<in> snap_targets left ivs clock" "list_all (within_bounds clock) ivs"
  shows "seek_commit left ctrl clock jump
           = \<lparr>clock_after = clock\<lparr>currentTime := jump\<rparr>, expanded = False,
              decided = (dayNumber jump \<noteq> 0), ctrl_kept_bounds = True\<rparr>"
proof -
  from assms have "\<not> (if left then lessThan_jd jump (startTime clock)
                  else greaterThan_jd jump (stopTime clock))"
    by (auto simp: snap_targets_def list_all_iff within_bounds_def lessThan_jd_def greaterThan_jd_def)
  then show ?thesis
    by (auto simp: seek_commit_def Let_def)
qed

lemma seek_snap_keeps_bounds:
  assumes "list_all (within_bounds clock) ivs"
  shows "\<exists>r. seek left True ivs clock = Some r \<and> \<not> expanded r \<and> ctrl_kept_bounds r
            \<and> startTime (clock_after r) = startTime clock
            \<and> stopTime (clock_after r) = stopTime clock"
proof (cases "length ivs = 0")
  case True
  then show ?thesis by (simp add: seek_def)
next
  case False
  obtain index where e: "epsilon_match left ivs (currentTime clock) = Some index"
    and r: "index < int (length ivs)"
    using epsilon_match_returns by blast
  let ?s = "JUMP_SECONDS * (if left then - 1 else 1) * \<bar>multiplier clock\<bar>"
  obtain j1 where i: "seek_inside left True ivs clock ?s index = Some j1"
    using seek_inside_returns[OF r] by blast
  obtain j where g: "seek_edge left ivs index (seek_outside left True ivs clock ?s index j1) = Some j"
    using seek_edge_returns[OF r] by blast
  have "j \<in> snap_targets left ivs clock"
    using seek_edge_snap_target[OF g] seek_outside_snap_target seek_inside_snap_target[OF i]
    by blast
  from seek_commit_target[OF this assms, of True] False e i g show ?thesis
    by (simp add: seek_def Let_def)
qed

section \<open>Seek engine: the concrete timeline\<close>

lemma compare_same_day [simp]:
  "compare (at_day d a) (at_day d b) = a - b"
  by (simp add: compare_def at_day_def)

lemma secondsDifference_same_day [simp]:
  "secondsDifference (at_day d a) (at_day d b) = a - b"
  by (simp add: secondsDifference_def at_day_def)

lemma addSeconds_within_day:
  "0 \<le> a + s \<Longrightarrow> a + s < 86400 \<Longrightarrow> addSeconds (at_day d a) s = at_day d (a + s)"
proof -
  assume a: "0 \<le> a + s" "a + s < 86400"
  then have "\<lfloor>(a + s) / 86400\<rfloor> = 0" by (simp add: floor_eq_iff)
  with a have "trunc0 ((a + s) / 86400) = 0" by (simp add: trunc0_def)
  with a show ?thesis
    by (simp add: addSeconds_def setComponents_def SECONDS_PER_DAY_def at_day_def Let_def)
qed

lemma indexOf_two_25: "indexOf (two_intervals d) (at_day d 25) = bnot 1"
  by (simp add: indexOf_def two_intervals_def contains_def Let_def)

lemma indexOf_two_15: "indexOf (two_intervals d) (at_day d 15) = 0"
  by (simp add: indexOf_def two_intervals_def contains_def Let_def)



lemma length_two [simp]: "length (two_intervals d) = 2"
  by (simp add: two_intervals_def)

lemma get_two:
  "get (two_intervals d) 0 = Some \<lparr>start = at_day d 10, stop = at_day d 20, data = Some 0\<rparr>"
  "get (two_intervals d) 1 = Some \<lparr>start = at_day d 30, stop = at_day d 40, data = Some 1\<rparr>"
  "get (two_intervals d) 2 = None"
  "get (two_intervals d) (- 1) = None"
  by (simp_all add: get_def two_intervals_def)

lemma em25: "epsilon_match False (two_intervals d) (at_day d 25) = Some (bnot 1)"
  by (simp add: epsilon_match_def indexOf_two_25 match_inside_def match_outside_def bnot_def get_two
       equalsEpsilon_def)

lemma em15: "epsilon_match False (two_intervals d) (at_day d 15) = Some 0"
  by (simp add: epsilon_match_def indexOf_two_15 match_inside_def match_outside_def bnot_def get_two
       equalsEpsilon_def)

lemma seek_snap_25:
  "d \<noteq> 0 \<Longrightarrow> seek False True (two_intervals d) (clock_at d 25 m run)
     = Some \<lparr>clock_after = (clock_at d 25 m run)\<lparr>currentTime := at_day d 30\<rparr>,
             expanded = False, decided = True, ctrl_kept_bounds = True\<rparr>"
proof -
  assume d: "d \<noteq> 0"
  have c: "currentTime (clock_at d 25 m run) = at_day d 25" by (simp add: clock_at_def)
  have i: "seek_inside False True (two_intervals d) (clock_at d 25 m run) s (bnot 1) = Some jump_unset" for s
    by (simp add: seek_inside_def bnot_def)
  have o: "seek_outside False True (two_intervals d) (clock_at d 25 m run) s (bnot 1) jump_unset = at_day d 30" for s
    by (simp add: seek_outside_def jump_unset_def bnot_def get_two)
  have e: "seek_edge False (two_intervals d) (bnot 1) (at_day d 30) = Some (at_day d 30)"
    by (simp add: seek_edge_def bnot_def)
  have k: "seek_commit False True (clock_at d 25 m run) (at_day d 30)
     = \<lparr>clock_after = (clock_at d 25 m run)\<lparr>currentTime := at_day d 30\<rparr>,
             expanded = False, decided = True, ctrl_kept_bounds = True\<rparr>"
    using d by (simp add: seek_commit_def greaterThan_jd_def clock_at_def) (simp add: at_day_def)
  show ?thesis
    by (simp add: seek_def c em25 i o e k)
qed

lemma seek_plain_15:
  "d \<noteq> 0 \<Longrightarrow> \<bar>m\<bar> = 1 \<Longrightarrow> seek False False (two_intervals d) (clock_at d 15 m run)
     = Some \<lparr>clock_after = (clock_at d 15 m run)\<lparr>currentTime := at_day d 25\<rparr>,
             expanded = False, decided = True, ctrl_kept_bounds = True\<rparr>"
proof -
  assume d: "d \<noteq> 0" and m: "\<bar>m\<bar> = 1"
  have c: "currentTime (clock_at d 15 m run) = at_day d 15" by (simp add: clock_at_def)
  have mm: "multiplier (clock_at d 15 m run) = m" by (simp add: clock_at_def)
  have a: "addSeconds (at_day d 15) 10 = at_day d 25"
    using addSeconds_within_day[of 15 10 d] by simp
  have i: "seek_inside False False (two_intervals d) (clock_at d 15 m run) 10 0 = Some jump_unset"
    by (simp add: seek_inside_def get_two c a indexOf_two_25 bnot_def)
  have o: "seek_outside False False (two_intervals d) (clock_at d 15 m run) 10 0 jump_unset = at_day d 25"
    by (simp add: seek_outside_def jump_unset_def c a)
  have e: "seek_edge False (two_intervals d) 0 (at_day d 25) = Some (at_day d 25)"
    using d by (simp add: seek_edge_def at_day_def)
  have k: "seek_commit False False (clock_at d 15 m run) (at_day d 25)
     = \<lparr>clock_after = (clock_at d 15 m run)\<lparr>currentTime := at_day d 25\<rparr>,
             expanded = False, decided = True, ctrl_kept_bounds = True\<rparr>"
    using d by (simp add: seek_commit_def greaterThan_jd_def clock_at_def) (simp add: at_day_def)
  show ?thesis
    by (simp add: seek_def c mm em15 i o e k m JUMP_SECONDS_def Let_def)
qed

lemma indexOf_two_19: "indexOf (two_intervals d) (at_day d (39 / 2)) = 0"
  by (simp add: indexOf_def two_intervals_def contains_def Let_def)

lemma indexOf_two_10: "indexOf (two_intervals d) (at_day d (21 / 2)) = 0"
  by (simp add: indexOf_def two_intervals_def contains_def Let_def)

lemma em19: "epsilon_match False (two_intervals d) (at_day d (39 / 2)) = Some 0"
  by (simp add: indexOf_two_19 epsilon_match_def match_inside_def
        match_outside_def get_two equalsEpsilon_def bnot_def)

lemma em10: "epsilon_match True (two_intervals d) (at_day d (21 / 2)) = Some (bnot 0)"
  by (simp add: indexOf_two_10 epsilon_match_def match_inside_def
        match_outside_def get_two equalsEpsilon_def bnot_def)

lemma seek_snap_19:
  "d \<noteq> 0 \<Longrightarrow> seek False True (two_intervals d) (clock_at d (39 / 2) m run)
     = Some \<lparr>clock_after = (clock_at d (39 / 2) m run)\<lparr>currentTime := at_day d 20\<rparr>,
             expanded = False, decided = True, ctrl_kept_bounds = True\<rparr>"
proof -
  assume d: "d \<noteq> 0"
  have c: "currentTime (clock_at d (39 / 2) m run) = at_day d (39 / 2)" by (simp add: clock_at_def)
  note em = em19[of d]
  have i: "seek_inside False True (two_intervals d) (clock_at d (39 / 2) m run) s 0 = Some (at_day d 20)" for s
    by (simp add: seek_inside_def get_two)
  have o: "seek_outside False True (two_intervals d) (clock_at d (39 / 2) m run) s 0 (at_day d 20) = at_day d 20" for s
    using d by (simp add: seek_outside_def at_day_def)
  have e: "seek_edge False (two_intervals d) 0 (at_day d 20) = Some (at_day d 20)"
    using d by (simp add: seek_edge_def at_day_def)
  have k: "seek_commit False True (clock_at d (39 / 2) m run) (at_day d 20)
     = \<lparr>clock_after = (clock_at d (39 / 2) m run)\<lparr>currentTime := at_day d 20\<rparr>,
             expanded = False, decided = True, ctrl_kept_bounds = True\<rparr>"
    using d by (simp add: seek_commit_def greaterThan_jd_def clock_at_def) (simp add: at_day_def)
  show ?thesis
    by (simp add: seek_def c em i o e k)
qed

lemma indexOf_early: "indexOf early_flight (at_day 2460100 0) = bnot 1"
  by (simp add: indexOf_def early_flight_def contains_def Let_def compare_def at_day_def)

lemma get_early:
  "get early_flight 0 = Some \<lparr>start = at_day 2460000 10, stop = at_day 2460000 20, data = Some 0\<rparr>"
  "get early_flight 1 = None"
  "get early_flight (- 1) = None"
  by (simp_all add: get_def early_flight_def)

lemma seek_plain_15_day0:
  "\<bar>m\<bar> = 1 \<Longrightarrow> seek False False (two_intervals 0) (clock_at 0 15 m run)
     = Some \<lparr>clock_after = (clock_at 0 15 m run)\<lparr>currentTime := at_day 0 20\<rparr>,
             expanded = False, decided = False, ctrl_kept_bounds = True\<rparr>"
proof -
  assume m: "\<bar>m\<bar> = 1"
  have c: "currentTime (clock_at 0 15 m run) = at_day 0 15" by (simp add: clock_at_def)
  have mm: "multiplier (clock_at 0 15 m run) = m" by (simp add: clock_at_def)
  have a: "addSeconds (at_day 0 15) 10 = at_day 0 25"
    using addSeconds_within_day[of 15 10 0] by simp
  have i: "seek_inside False False (two_intervals 0) (clock_at 0 15 m run) 10 0 = Some jump_unset"
    by (simp add: seek_inside_def get_two c a indexOf_two_25 bnot_def)
  have o: "seek_outside False False (two_intervals 0) (clock_at 0 15 m run) 10 0 jump_unset = at_day 0 25"
    by (simp add: seek_outside_def jump_unset_def c a)
  have e: "seek_edge False (two_intervals 0) 0 (at_day 0 25) = Some (at_day 0 20)"
    by (simp add: seek_edge_def at_day_def get_two)
  have k: "seek_commit False False (clock_at 0 15 m run) (at_day 0 20)
     = \<lparr>clock_after = (clock_at 0 15 m run)\<lparr>currentTime := at_day 0 20\<rparr>,
             expanded = False, decided = False, ctrl_kept_bounds = True\<rparr>"
    by (simp add: seek_commit_def greaterThan_jd_def clock_at_def) (simp add: at_day_def)
  show ?thesis
    by (simp add: seek_def c mm em15 i o e k m JUMP_SECONDS_def Let_def)
qed

text \<open>
  Claim C3. With the global collection holding exactly the intervals from 10 to 20 and from
  30 to 40 and the clock bounded by 0 and 50 (seconds of any day \<open>d\<close> whose day number is
  not the handler's "undecided" mark \<open>0\<close>): a forward seek with the control modifier from
  25 commits 30, whatever the rate; a plain forward seek (step 10 seconds, rate of magnitude
  1) from 15 commits exactly 25, the step out of the interval being discarded and redone
  outside.
  Neither seek widens a bound, and both assertions of the handler hold.
\<close>

theorem seek_scenario:
  assumes "d \<noteq> 0" and "\<bar>m\<bar> = 1"
  shows "seek False True (two_intervals d) (clock_at d 25 m0 run0)
           = Some \<lparr>clock_after = (clock_at d 25 m0 run0)\<lparr>currentTime := at_day d 30\<rparr>,
                   expanded = False, decided = True, ctrl_kept_bounds = True\<rparr>
         \<and> seek False False (two_intervals d) (clock_at d 15 m run)
           = Some \<lparr>clock_after = (clock_at d 15 m run)\<lparr>currentTime := at_day d 25\<rparr>,
                   expanded = False, decided = True, ctrl_kept_bounds = True\<rparr>"
  using assms seek_snap_25 seek_plain_15 by simp

theorem seek_scenario_witness:
  "seek False True (two_intervals 2460000) (clock_at 2460000 25 50 True)
           = Some \<lparr>clock_after = (clock_at 2460000 25 50 True)\<lparr>currentTime := at_day 2460000 30\<rparr>,
                   expanded = False, decided = True, ctrl_kept_bounds = True\<rparr>
   \<and> seek False False (two_intervals 2460000) (clock_at 2460000 15 (- 1) False)
           = Some \<lparr>clock_after = (clock_at 2460000 15 (- 1) False)\<lparr>currentTime := at_day 2460000 25\<rparr>,
                   expanded = False, decided = True, ctrl_kept_bounds = True\<rparr>"
  using seek_scenario[of 2460000 "- 1" 50 True False] by simp

text \<open>
  Claim C5 says that a forward seek from inside an interval, at its stop within the
  epsilon of the other edge comparisons (1 second), is first moved to "just after" that
  interval, as a backward seek at the start is moved to "just before" it. The code
  compares with the stop without an epsilon (app.js 885), so only an exact match counts.
  Half a second before the stop of the first interval the forward seek stays inside
  (index \<open>0\<close>), while half a second after its start the backward seek is moved before it
  (index \<open>~0\<close>).
\<close>

theorem forward_stop_match_is_exact:
  "indexOf (two_intervals d) (at_day d (39 / 2)) = 0
   \<and> equalsEpsilon (at_day d (39 / 2)) (at_day d 20) 1
   \<and> epsilon_match False (two_intervals d) (at_day d (39 / 2)) = Some 0
   \<and> epsilon_match True (two_intervals d) (at_day d (21 / 2)) = Some (bnot 0)"
  by (simp add: indexOf_two_19 em19 em10 equalsEpsilon_def)

text \<open>
  Claim C4 says that a seek with the control modifier never commits a target outside the
  bounds of the clock, so that it never widens them; the handler asserts the same
  (\<open>assert(!expanded || !ctrl)\<close>, app.js 1014). The code does not keep to it when an
  interval of the global collection lies outside the bounds: with the early flight and the
  later clock, control-left goes to the stop of the flight, before the start bound. The
  bound is widened to it and the assertion fails. (When every interval lies within the
  bounds, \<open>seek_snap_keeps_bounds\<close> shows that the bounds stay.)
\<close>

theorem seek_snap_widens_start:
  "seek True True early_flight late_clock
     = Some \<lparr>clock_after = late_clock\<lparr>startTime := at_day 2460000 20,
                                       currentTime := at_day 2460000 20\<rparr>,
             expanded = True, decided = True, ctrl_kept_bounds = False\<rparr>"
proof -
  have c: "currentTime late_clock = at_day 2460100 0" by (simp add: late_clock_def)
  have n: "length early_flight = 1" by (simp add: early_flight_def)
  have em: "epsilon_match True early_flight (at_day 2460100 0) = Some (bnot 1)"
  proof -
    have "\<not> equalsEpsilon (at_day 2460100 0) (at_day 2460000 20) 1"
      by (simp add: equalsEpsilon_def secondsDifference_def at_day_def SECONDS_PER_DAY_def)
    then show ?thesis
      by (simp add: epsilon_match_def indexOf_early match_inside_def match_outside_def bnot_def
            get_early)
  qed
  have i: "seek_inside True True early_flight late_clock s (bnot 1) = Some jump_unset" for s
    by (simp add: seek_inside_def bnot_def)
  have o: "seek_outside True True early_flight late_clock s (bnot 1) jump_unset = at_day 2460000 20" for s
    by (simp add: seek_outside_def jump_unset_def bnot_def get_early)
  have e: "seek_edge True early_flight (bnot 1) (at_day 2460000 20) = Some (at_day 2460000 20)"
    by (simp add: seek_edge_def bnot_def)
  have k: "seek_commit True True late_clock (at_day 2460000 20)
     = \<lparr>clock_after = late_clock\<lparr>startTime := at_day 2460000 20,
                                       currentTime := at_day 2460000 20\<rparr>,
             expanded = True, decided = True, ctrl_kept_bounds = False\<rparr>"
    by (simp add: seek_commit_def lessThan_jd_def late_clock_def compare_def at_day_def)
  show ?thesis
    by (simp add: seek_def c em i o e k n Let_def)
qed

section \<open>Pilots: the circular list\<close>

lemma set_property_order [simp]: "set (property_order kvs) = set kvs"
  by (auto simp: property_order_def)













lemma four_pilots:
  "create_pilots [[], ''ann'', ''__proto__'', ''7''] (empty_state c) = (ps, st) \<Longrightarrow>
     ps = [0, 1, 2, 3]
     \<and> pilots st = [([], 0), (''ann'', 1), (''7'', 3)]
     \<and> pilots_proto st = Some 2
     \<and> object_values (pilots st) = [3, 0, 1]
     \<and> map (\<lambda>p. next_pilot (pilot_heap st p)) ps = [Some 1, Some 2, Some 3, Some 0]
     \<and> map (\<lambda>p. prev_pilot (pilot_heap st p)) ps = [Some 3, Some 0, Some 1, Some 2]"
  by (auto simp: Pilot_new_def empty_state_def all_colors_def object_values_def property_order_def
        is_array_index_def digit_of_def decimal_value_def Let_def)



section \<open>Resolver: notifications and transitions\<close>

lemma onTick_flight [simp]: "currentFlight (onTick st r) = resolve_flight st"
  by (simp add: onTick_def changeFlight_def changeVideo_def Let_def)

lemma onTick_video [simp]: "currentVideo (onTick st r) = resolve_video st"
  by (simp add: onTick_def changeFlight_def changeVideo_def Let_def)

lemma onTick_notifications:
  "notifications (onTick st r) =
     notifications r
       @ (if resolve_flight st \<noteq> currentFlight r
          then [Flight_changed (currentFlight r) (resolve_flight st)] else [])
       @ (if resolve_video st \<noteq> currentVideo r
          then [Video_changed (currentVideo r) (resolve_video st)] else [])"
  by (simp add: onTick_def changeFlight_def changeVideo_def Let_def)

lemma transitions_Cons2:
  "transitions (a # b # xs) = (if a \<noteq> b then [(a, b)] else []) @ transitions (b # xs)"
  by (simp add: transitions_def)

lemma transitions_single [simp]: "transitions [a] = []"
  by (simp add: transitions_def)

lemma run_ticks_flight_changes:
  "filter is_flight_change (notifications (run_ticks sts r))
     = filter is_flight_change (notifications r)
       @ map (\<lambda>ab. Flight_changed (fst ab) (snd ab))
           (transitions (currentFlight r # map resolve_flight sts))"
proof (induction sts arbitrary: r)
  case Nil
  then show ?case by simp
next
  case (Cons st sts)
  show ?case
    by (simp add: Cons.IH onTick_notifications transitions_Cons2 eq_commute[of "currentFlight r"])
qed

lemma run_ticks_video_changes:
  "filter (\<lambda>n. \<not> is_flight_change n) (notifications (run_ticks sts r))
     = filter (\<lambda>n. \<not> is_flight_change n) (notifications r)
       @ map (\<lambda>ab. Video_changed (fst ab) (snd ab))
           (transitions (currentVideo r # map resolve_video sts))"
proof (induction sts arbitrary: r)
  case Nil
  then show ?case by simp
next
  case (Cons st sts)
  show ?case
    by (simp add: Cons.IH onTick_notifications transitions_Cons2 eq_commute[of "currentVideo r"])
qed

text \<open>
  Claim C6. Over any sequence of ticks (whatever the state of the application is at each
  of them), the flight-changed notifications the resolver fires are exactly the transitions
  of the sequence of resolved flight payloads, starting from the active flight before the
  first tick: one notification, with the old and the new payload, for each tick whose
  resolved payload differs from the one before, and none for a tick whose payload is the
  same, be it the same interval again or again no interval. The same holds of the
  video-changed notifications and the resolved video payloads.
\<close>

theorem resolver_fires_once_per_transition:
  "filter is_flight_change (notifications (run_ticks sts (r\<lparr>notifications := []\<rparr>)))
     = map (\<lambda>ab. Flight_changed (fst ab) (snd ab))
         (transitions (currentFlight r # map resolve_flight sts))
   \<and> filter (\<lambda>n. \<not> is_flight_change n) (notifications (run_ticks sts (r\<lparr>notifications := []\<rparr>)))
     = map (\<lambda>ab. Video_changed (fst ab) (snd ab))
         (transitions (currentVideo r # map resolve_video sts))"
  by (simp add: run_ticks_flight_changes run_ticks_video_changes)

section \<open>Interval collections: what the updates keep\<close>

lemma heap_le_refl [simp]: "heap_le h h"
  by (simp add: heap_le_def)

lemma heap_le_trans: "heap_le h h1 \<Longrightarrow> heap_le h1 h2 \<Longrightarrow> heap_le h h2"
  by (auto simp: heap_le_def)

lemma heap_le_cell: "heap_le h h1 \<Longrightarrow> r < fresh h \<Longrightarrow> cells h1 r = cells h r"
  by (simp add: heap_le_def)

lemma heap_le_fresh: "heap_le h h1 \<Longrightarrow> r < fresh h \<Longrightarrow> r < fresh h1"
  by (simp add: heap_le_def)

lemma new_TimeInterval_heap:
  assumes "new_TimeInterval iv h = (r, h1)"
  shows "heap_le h h1" "r = fresh h" "fresh h1 = Suc (fresh h)" "cells h1 r = iv"
  using assms by (auto simp: new_TimeInterval_def heap_le_def)

lemma others_mono: "others h d refs \<Longrightarrow> heap_le h h1 \<Longrightarrow> others h1 d refs"
  by (auto simp: others_def list_all_iff heap_le_def)

lemma others_Cons [simp]:
  "others h d (e # refs) = (e < fresh h \<and> data (cells h e) \<noteq> d \<and> others h d refs)"
  by (simp add: others_def)

lemma others_append [simp]:
  "others h d (xs @ ys) = (others h d xs \<and> others h d ys)"
  by (simp add: others_def)

lemma others_Nil [simp]: "others h d []"
  by (simp add: others_def)

lemma remove_span_others:
  assumes "remove_span iv coll h = (coll1, h1)"
    and "list_all (\<lambda>e. e < fresh h \<and> (e \<noteq> r \<longrightarrow> data (cells h e) \<noteq> d)) coll"
    and "r < fresh h" "cells h r = iv" "\<not> isEmpty iv"
  shows "heap_le h h1 \<and> others h1 d coll1"
  using assms
proof (induction coll arbitrary: h coll1 h1)
  case Nil
  then show ?case by simp
next
  case (Cons e es)
  let ?e = "cells h e"
  show ?case
  proof (cases "compare (stop ?e) (start iv) \<le> 0 \<or> compare (stop iv) (start ?e) \<le> 0")
    case True
    obtain es1 h2 where rec: "remove_span iv es h = (es1, h2)" by (cases "remove_span iv es h")
    with True Cons.prems(1) have eq: "coll1 = e # es1" "h1 = h2" by (auto simp: Let_def)
    from Cons.prems have "e \<noteq> r"
      using True by (auto simp: isEmpty_def)
    with Cons.prems(2) have e: "e < fresh h" "data (cells h e) \<noteq> d" by auto
    from Cons.IH[OF rec] Cons.prems have ih: "heap_le h h2" "others h2 d es1" by auto
    with e eq show ?thesis
      by (auto simp: heap_le_def)
  next
    case False
    obtain bf h3 where bf: "(if lessThan_jd (start ?e) (start iv)
                then (let (l, h0) = new_TimeInterval
                                      \<lparr>start = start ?e, stop = start iv, data = data ?e\<rparr> h
                      in ([l], h0))
                else ([], h)) = (bf, h3)" by fastforce
    obtain af h4 where af: "(if greaterThan_jd (stop ?e) (stop iv)
                then (let (l, h0) = new_TimeInterval
                                      \<lparr>start = stop iv, stop = stop ?e, data = data ?e\<rparr> h3
                      in ([l], h0))
                else ([], h3)) = (af, h4)" by fastforce
    obtain es1 h5 where rec: "remove_span iv es h4 = (es1, h5)" by (cases "remove_span iv es h4")
    from False bf af rec Cons.prems(1) have eq: "coll1 = bf @ af @ es1" "h1 = h5"
      by (auto simp: Let_def)
    have er: "e \<noteq> r \<or> (bf = [] \<and> af = [])"
      using bf af Cons.prems(4) by (auto simp: lessThan_jd_def greaterThan_jd_def)
    from Cons.prems(2) have e: "e < fresh h" "e \<noteq> r \<longrightarrow> data ?e \<noteq> d" by auto
    have b: "heap_le h h3 \<and> others h3 d bf"
      using bf er e
      by (auto simp: new_TimeInterval_def heap_le_def split: if_splits)
    have a: "heap_le h3 h4 \<and> others h4 d af"
      using af er e b
      by (auto simp: new_TimeInterval_def heap_le_def split: if_splits)
    have le4: "heap_le h h4" using a b heap_le_trans by blast
    have pre: "list_all (\<lambda>e. e < fresh h4 \<and> (e \<noteq> r \<longrightarrow> data (cells h4 e) \<noteq> d)) es"
      using Cons.prems(2) le4 by (auto simp: list_all_iff heap_le_def)
    have r4: "r < fresh h4" "cells h4 r = iv"
      using le4 Cons.prems(3,4) by (auto simp: heap_le_def)
    from Cons.IH[OF rec pre r4 Cons.prems(5)] have ih: "heap_le h4 h5" "others h5 d es1" by auto
    have "others h5 d bf" using b a ih others_mono by blast
    moreover have "others h5 d af" using a ih others_mono by blast
    moreover have "heap_le h h5" using le4 ih heap_le_trans by blast
    ultimately show ?thesis using eq ih by simp
  qed
qed

lemma others_butlast: "others h d xs \<Longrightarrow> others h d (butlast xs)"
  by (auto simp: others_def list_all_iff dest: in_set_butlastD)

lemma others_last: "others h d xs \<Longrightarrow> xs \<noteq> [] \<Longrightarrow> last xs < fresh h \<and> data (cells h (last xs)) \<noteq> d"
  by (auto simp: others_def list_all_iff)

lemma merge_prev_others:
  assumes m: "merge_prev cur before after h = (c, b1, a1, h1)"
    and b: "others h d before" and a: "others h d after"
    and d: "data (cells h cur) = d"
  shows "c = cur \<and> heap_le h h1 \<and> others h1 d b1 \<and> others h1 d a1"
proof (cases "before = []")
  case True
  with m a show ?thesis by (simp add: merge_prev_def)
next
  case False
  let ?e = "cells h (last before)"
  let ?iv = "cells h cur"
  from others_last[OF b False] d have ne: "data ?e \<noteq> data ?iv" "last before < fresh h" by auto
  show ?thesis
  proof (cases "compare (stop ?e) (start ?iv) \<ge> 0")
    case False
    with m \<open>before \<noteq> []\<close> a b show ?thesis by (simp add: merge_prev_def Let_def)
  next
    case True
    obtain af h2 where af: "(if compare (stop ?e) (stop ?iv) > 0
                            then (let (l, h0) = new_TimeInterval
                                                  \<lparr>start = stop ?iv, stop = stop ?e,
                                                   data = data ?e\<rparr> h
                                  in (l # after, h0))
                            else (after, h)) = (af, h2)" by fastforce
    obtain p h3 where p: "new_TimeInterval \<lparr>start = start ?e, stop = start ?iv, data = data ?e\<rparr> h2 = (p, h3)"
      by fastforce
    from m True \<open>before \<noteq> []\<close> ne af p
    have eq: "c = cur" "b1 = butlast before @ [p]" "a1 = af" "h1 = h3"
      by (auto simp: merge_prev_def Let_def)
    have a2: "heap_le h h2 \<and> others h2 d af"
    proof (cases "compare (stop ?e) (stop ?iv) > 0")
      case True
      with af have h2: "heap_le h h2" "af = fresh h # after" "cells h2 (fresh h) = \<lparr>start = stop ?iv, stop = stop ?e, data = data ?e\<rparr>"
        "fresh h2 = Suc (fresh h)"
        by (auto simp: new_TimeInterval_def heap_le_def)
      with others_mono[OF a h2(1)] ne d show ?thesis by simp
    next
      case False
      with af a show ?thesis by simp
    qed
    have p3: "heap_le h2 h3 \<and> others h3 d [p]"
      using p ne d by (auto simp: new_TimeInterval_def heap_le_def)
    have "heap_le h h3" using a2 p3 heap_le_trans by blast
    moreover have "others h3 d (butlast before)"
      using others_mono[OF others_butlast[OF b] \<open>heap_le h h3\<close>] .
    moreover have "others h3 d af" using a2 p3 others_mono by blast
    ultimately show ?thesis using eq p3 by simp
  qed
qed

lemma merge_next_others:
  assumes "merge_next cur after h = (c, a1, h1)"
    and "others h d after" and "data (cells h cur) = d" and "cur < fresh h"
  shows "c = cur \<and> heap_le h h1 \<and> others h1 d a1"
  using assms
proof (induction after arbitrary: h a1 h1)
  case Nil
  then show ?case by simp
next
  case (Cons n ns)
  let ?iv = "cells h cur"
  let ?e = "cells h n"
  from Cons.prems have ne: "data ?e \<noteq> data ?iv" "n < fresh h" "others h d ns" by auto
  show ?case
  proof (cases "compare (stop ?iv) (start ?e) \<ge> 0")
    case False
    with Cons.prems show ?thesis by (auto simp: Let_def)
  next
    case True
    obtain t h2 where t: "new_TimeInterval \<lparr>start = stop ?iv, stop = stop ?e, data = data ?e\<rparr> h = (t, h2)"
      by fastforce
    have t2: "heap_le h h2" "others h2 d [t]"
      using t ne Cons.prems(3) by (auto simp: new_TimeInterval_def heap_le_def)
    have c2: "data (cells h2 cur) = d" "cur < fresh h2"
      using t2 Cons.prems(3,4) by (auto simp: heap_le_def)
    have ns2: "others h2 d ns" using ne t2 others_mono by blast
    show ?thesis
    proof (cases "isEmpty (cells h2 t)")
      case True
      with \<open>compare (stop ?iv) (start ?e) \<ge> 0\<close> ne t Cons.prems(1)
      have rec: "merge_next cur ns h2 = (c, a1, h1)" by (simp add: Let_def)
      from Cons.IH[OF rec ns2 c2] t2 heap_le_trans show ?thesis by blast
    next
      case False
      with \<open>compare (stop ?iv) (start ?e) \<ge> 0\<close> ne t Cons.prems(1)
      have "c = cur" "a1 = t # ns" "h1 = h2" by (auto simp: Let_def)
      with t2 ns2 show ?thesis by simp
    qed
  qed
qed

lemma others_takeWhile: "others h d xs \<Longrightarrow> others h d (takeWhile P xs)"
  by (auto simp: others_def list_all_iff dest: set_takeWhileD)

lemma others_dropWhile: "others h d xs \<Longrightarrow> others h d (dropWhile P xs)"
  by (auto simp: others_def list_all_iff dest: set_dropWhileD)

lemma addInterval_keeps:
  assumes a: "addInterval r coll h = (coll1, h1)"
    and o: "others h d coll" and d: "data (cells h r) = d" and r: "r < fresh h"
    and ne: "\<not> isEmpty (cells h r)"
  shows "r \<in> set coll1 \<and> heap_le h h1"
proof (cases "coll = [] \<or> greaterThan_jd (start (cells h r)) (stop (cells h (last coll)))")
  case True
  with a ne have "coll1 = coll @ [r]" "h1 = h" by (auto simp: addInterval_def Let_def)
  then show ?thesis by simp
next
  case False
  let ?earlier = "\<lambda>e. lessThan_jd (start (cells h e)) (start (cells h r))"
  obtain c b1 a1 h2 where mp: "merge_prev r (takeWhile ?earlier coll) (dropWhile ?earlier coll) h = (c, b1, a1, h2)"
    by (metis prod_cases4)
  obtain c1 a2 h3 where mn: "merge_next c a1 h2 = (c1, a2, h3)"
    by (metis prod_cases3)
  from a False ne mp mn have eq: "coll1 = b1 @ [c1] @ a2" "h1 = h3"
    by (auto simp: addInterval_def Let_def)
  from merge_prev_others[OF mp others_takeWhile[OF o] others_dropWhile[OF o] d]
  have p: "c = r" "heap_le h h2" "others h2 d b1" "others h2 d a1" by auto
  have "data (cells h2 c) = d" "c < fresh h2"
    using p d r by (auto simp: heap_le_def)
  from merge_next_others[OF mn p(4) this]
  have n: "c1 = c" "heap_le h2 h3" by auto
  with p eq heap_le_trans show ?thesis by auto
qed

lemma new_TimeInterval_le: "new_TimeInterval iv h = (r, h1) \<Longrightarrow> heap_le h h1"
  by (auto simp: new_TimeInterval_def heap_le_def)

lemma merge_prev_le:
  "merge_prev cur before after h = (c, b1, a1, h1) \<Longrightarrow> heap_le h h1"
  by (auto simp: merge_prev_def Let_def new_TimeInterval_def heap_le_def split: if_splits)

lemma merge_next_le:
  "merge_next cur after h = (c, a1, h1) \<Longrightarrow> heap_le h h1"
proof (induction after arbitrary: cur h c a1 h1)
  case Nil
  then show ?case by simp
next
  case (Cons n ns)
  show ?case
  proof (cases "compare (stop (cells h cur)) (start (cells h n)) \<ge> 0")
    case False
    with Cons.prems show ?thesis by (auto simp: Let_def)
  next
    case True
    note ov = True
    show ?thesis
    proof (cases "data (cells h n) = data (cells h cur)")
      case True
      obtain k h2 where k: "new_TimeInterval
            \<lparr>start = start (cells h cur),
             stop = (if greaterThan_jd (stop (cells h n)) (stop (cells h cur))
                     then stop (cells h n) else stop (cells h cur)),
             data = data (cells h cur)\<rparr> h = (k, h2)" by fastforce
      with ov True Cons.prems have "merge_next k ns h2 = (c, a1, h1)" by (simp add: Let_def)
      from Cons.IH[OF this] new_TimeInterval_le[OF k] heap_le_trans show ?thesis by blast
    next
      case False
      obtain t h2 where t: "new_TimeInterval
            \<lparr>start = stop (cells h cur), stop = stop (cells h n), data = data (cells h n)\<rparr> h = (t, h2)"
        by fastforce
      show ?thesis
      proof (cases "isEmpty (cells h2 t)")
        case True
        with ov False t Cons.prems have "merge_next cur ns h2 = (c, a1, h1)" by (simp add: Let_def)
        from Cons.IH[OF this] new_TimeInterval_le[OF t] heap_le_trans show ?thesis by blast
      next
        case e: False
        with ov False t Cons.prems have "h1 = h2" by (simp add: Let_def)
        with new_TimeInterval_le[OF t] show ?thesis by simp
      qed
    qed
  qed
qed

lemma addInterval_le: "addInterval r coll h = (coll1, h1) \<Longrightarrow> heap_le h h1"
proof -
  assume a: "addInterval r coll h = (coll1, h1)"
  let ?earlier = "\<lambda>e. lessThan_jd (start (cells h e)) (start (cells h r))"
  obtain c b1 a1 h2 where mp: "merge_prev r (takeWhile ?earlier coll) (dropWhile ?earlier coll) h = (c, b1, a1, h2)"
    by (metis prod_cases4)
  obtain c1 a2 h3 where mn: "merge_next c a1 h2 = (c1, a2, h3)"
    by (metis prod_cases3)
  from a mp mn have "h1 = h \<or> h1 = h3"
    by (auto simp: addInterval_def Let_def split: if_splits)
  with merge_prev_le[OF mp] merge_next_le[OF mn] heap_le_trans show ?thesis by auto
qed

lemma Pilot_add_accepts_aux:
  assumes i: "o_interval (objects st ob) = Some r"
    and r: "r < fresh (iheap st)"
    and ne: "\<not> isEmpty (cells (iheap st) r)"
    and o: "list_all (\<lambda>e. e < fresh (iheap st)
                          \<and> (e \<noteq> r \<longrightarrow> data (cells (iheap st) e) \<noteq> data (cells (iheap st) r)))
              (collection_of (o_class (objects st ob)) (pilot_heap st this))"
  shows "\<exists>st1. Pilot_add this ob st = Inr st1
            \<and> warnings st1 = warnings st
            \<and> o_pilot (objects st1 ob) = Some this
            \<and> r \<in> set (collection_of (o_class (objects st1 ob)) (pilot_heap st1 this))
            \<and> cells (iheap st1) r = cells (iheap st) r"
proof -
  let ?c = "o_class (objects st ob)"
  let ?h = "iheap st"
  let ?d = "data (cells ?h r)"
  obtain coll1 h1 where rm: "removeInterval r (collection_of ?c (pilot_heap st this)) ?h = (coll1, h1)"
    by fastforce
  obtain coll2 h2 where ad: "addInterval r coll1 h1 = (coll2, h2)" by fastforce
  obtain k h3 where cl: "clone_interval r h2 = (k, h3)" by fastforce
  obtain g h4 where gl: "addInterval k (intervals st) h3 = (g, h4)" by fastforce
  from rm ne have "remove_span (cells ?h r) (collection_of ?c (pilot_heap st this)) ?h = (coll1, h1)"
    by (simp add: removeInterval_def)
  from remove_span_others[OF this o r refl ne]
  have 1: "heap_le ?h h1" "others h1 ?d coll1" by auto
  have r1: "data (cells h1 r) = ?d" "r < fresh h1" "\<not> isEmpty (cells h1 r)"
    using 1 r ne by (auto simp: heap_le_def)
  from addInterval_keeps[OF ad 1(2) r1]
  have 2: "r \<in> set coll2" "heap_le h1 h2" by auto
  have 3: "heap_le h2 h3" using cl by (auto simp: clone_interval_def new_TimeInterval_le)
  have 4: "heap_le h3 h4" using gl by (rule addInterval_le)
  have "heap_le ?h h4" using 1 2 3 4 heap_le_trans by blast
  then have c4: "cells h4 r = cells ?h r" using r by (simp add: heap_le_def)
  have res: "Pilot_add this ob st =
     Inr (st\<lparr>pilot_heap := (pilot_heap st)
                                 (this := set_collection ?c coll2 (pilot_heap st this)),
              iheap := h4, intervals := g,
              objects := (objects st)(ob := (objects st ob)\<lparr>o_pilot := Some this\<rparr>)\<rparr>)"
    using i rm ad cl gl by (simp add: Pilot_add_def Let_def)
  show ?thesis
    using 2 c4
    by (cases ?c) (auto simp: res collection_of_def set_collection_def)
qed

section \<open>Interval collections: the span of an added interval\<close>

lemma key_eq: "key a = key b \<longleftrightarrow> a = (b::JulianDate)"
  by (auto simp: key_def)

lemma compare_key:
  "compare a b \<le> 0 \<longleftrightarrow> key a \<le> key b"
  "compare a b < 0 \<longleftrightarrow> key a < key b"
  "compare a b \<ge> 0 \<longleftrightarrow> key b \<le> key a"
  "compare a b > 0 \<longleftrightarrow> key b < key a"
  by (auto simp: compare_def key_def)

lemmas to_key = compare_key isEmpty_def contains_def lessThan_jd_def greaterThan_jd_def

lemma view_simps [simp]:
  "view h [] = []" "view h (e # es) = cells h e # view h es"
  "view h (xs @ ys) = view h xs @ view h ys"
  by (simp_all add: view_def)

lemma view_heap_le:
  "heap_le h h1 \<Longrightarrow> list_all (\<lambda>e. e < fresh h) refs \<Longrightarrow> view h1 refs = view h refs"
  by (auto simp: view_def heap_le_def list_all_iff)

lemma allocated_mono:
  "heap_le h h1 \<Longrightarrow> list_all (\<lambda>e. e < fresh h) refs \<Longrightarrow> list_all (\<lambda>e. e < fresh h1) refs"
  by (auto simp: heap_le_def list_all_iff)

lemma remove_span_view:
  assumes "remove_span iv coll h = (coll1, h1)"
    and "list_all (\<lambda>e. e < fresh h) coll"
  shows "heap_le h h1 \<and> list_all (\<lambda>e. e < fresh h1) coll1
         \<and> view h1 coll1 = cut_span iv (view h coll)"
  using assms
proof (induction coll arbitrary: h coll1 h1)
  case Nil
  then show ?case by simp
next
  case (Cons e es)
  let ?e = "cells h e"
  from Cons.prems(2) have e: "e < fresh h" and es: "list_all (\<lambda>e. e < fresh h) es" by auto
  show ?case
  proof (cases "compare (stop ?e) (start iv) \<le> 0 \<or> compare (stop iv) (start ?e) \<le> 0")
    case True
    obtain es1 h2 where rec: "remove_span iv es h = (es1, h2)" by (cases "remove_span iv es h")
    with True Cons.prems(1) have eq: "coll1 = e # es1" "h1 = h2" by (auto simp: Let_def)
    from Cons.IH[OF rec es]
    have ih: "heap_le h h2" "list_all (\<lambda>e. e < fresh h2) es1" "view h2 es1 = cut_span iv (view h es)"
      by auto
    from ih(1) e have "cells h2 e = ?e" "e < fresh h2" by (auto simp: heap_le_def)
    with ih eq True show ?thesis by simp
  next
    case False
    obtain bf h3 where bf: "(if lessThan_jd (start ?e) (start iv)
                then (let (l, h0) = new_TimeInterval
                                      \<lparr>start = start ?e, stop = start iv, data = data ?e\<rparr> h
                      in ([l], h0))
                else ([], h)) = (bf, h3)" by fastforce
    obtain af h4 where af: "(if greaterThan_jd (stop ?e) (stop iv)
                then (let (l, h0) = new_TimeInterval
                                      \<lparr>start = stop iv, stop = stop ?e, data = data ?e\<rparr> h3
                      in ([l], h0))
                else ([], h3)) = (af, h4)" by fastforce
    obtain es1 h5 where rec: "remove_span iv es h4 = (es1, h5)" by (cases "remove_span iv es h4")
    from False bf af rec Cons.prems(1) have eq: "coll1 = bf @ af @ es1" "h1 = h5"
      by (auto simp: Let_def)
    have b: "heap_le h h3 \<and> list_all (\<lambda>e. e < fresh h3) bf
             \<and> view h3 bf = (if lessThan_jd (start ?e) (start iv)
                             then [\<lparr>start = start ?e, stop = start iv, data = data ?e\<rparr>] else [])"
      using bf by (auto simp: new_TimeInterval_def heap_le_def split: if_splits)
    have a: "heap_le h3 h4 \<and> list_all (\<lambda>e. e < fresh h4) af
             \<and> view h4 af = (if greaterThan_jd (stop ?e) (stop iv)
                             then [\<lparr>start = stop iv, stop = stop ?e, data = data ?e\<rparr>] else [])"
      using af by (auto simp: new_TimeInterval_def heap_le_def split: if_splits)
    have le4: "heap_le h h4" using a b heap_le_trans by blast
    have es4: "list_all (\<lambda>e. e < fresh h4) es" using es le4 by (rule allocated_mono[rotated])
    from Cons.IH[OF rec es4]
    have ih: "heap_le h4 h5" "list_all (\<lambda>e. e < fresh h5) es1"
      "view h5 es1 = cut_span iv (view h4 es)" by auto
    have v: "view h4 es = view h es" using le4 es by (rule view_heap_le)
    have le35: "heap_le h3 h5" using a ih(1) heap_le_trans by blast
    have vb: "view h5 bf = view h3 bf" using view_heap_le[OF le35, of bf] b by blast
    have va: "view h5 af = view h4 af" using view_heap_le[OF ih(1), of af] a by blast
    have "heap_le h h5" using le4 ih(1) heap_le_trans by blast
    moreover have "list_all (\<lambda>e. e < fresh h5) (bf @ af @ es1)"
      using b a ih(1,2) allocated_mono[OF le35, of bf] allocated_mono[OF ih(1), of af] by simp
    moreover have "view h5 (bf @ af @ es1) = cut_span iv (view h (e # es))"
      using False b a ih(3) v vb va by simp
    ultimately show ?thesis using eq by simp
  qed
qed

lemma cut_span_disjoint:
  assumes "\<not> isEmpty iv" and "x \<in> set (cut_span iv v)"
  shows "key (stop x) \<le> key (start iv) \<or> key (stop iv) \<le> key (start x)"
  using assms
  by (induction v) (auto simp: to_key split: if_splits)

lemma cut_span_within:
  assumes "\<not> isEmpty iv" and "x \<in> set (cut_span iv v)"
  shows "\<exists>e \<in> set v. data x = data e \<and> key (start e) \<le> key (start x)
                     \<and> key (stop x) \<le> key (stop e) \<and> (\<not> isEmpty e \<longrightarrow> \<not> isEmpty x)"
  using assms
proof (induction v)
  case Nil
  then show ?case by simp
next
  case (Cons e es)
  show ?case
  proof (cases "x \<in> set (cut_span iv es)")
    case True
    with Cons show ?thesis by auto
  next
    case False
    with Cons.prems have
      "x = e \<or> (x = \<lparr>start = start e, stop = start iv, data = data e\<rparr>
                 \<and> key (start e) < key (start iv) \<and> key (start iv) < key (stop e))
       \<or> (x = \<lparr>start = stop iv, stop = stop e, data = data e\<rparr>
           \<and> key (stop iv) < key (stop e) \<and> key (start e) < key (stop iv))"
      by (auto simp: to_key split: if_splits)
    then show ?thesis by (auto simp: to_key)
  qed
qed

lemma well_formed_Cons:
  "well_formed (e # es) \<longleftrightarrow>
     \<not> isEmpty e \<and> (\<forall>b \<in> set es. key (stop e) \<le> key (start b)) \<and> well_formed es"
  by (auto simp: well_formed_def compare_key)

lemma well_formed_append:
  "well_formed (xs @ ys) \<longleftrightarrow>
     well_formed xs \<and> well_formed ys
     \<and> (\<forall>a \<in> set xs. \<forall>b \<in> set ys. key (stop a) \<le> key (start b))"
  by (auto simp: well_formed_def compare_key sorted_wrt_append)

lemma well_formed_Nil [simp]: "well_formed []"
  by (simp add: well_formed_def)

lemma cut_span_wf:
  assumes "\<not> isEmpty iv" and "well_formed v"
  shows "well_formed (cut_span iv v)"
  using assms(2)
proof (induction v)
  case Nil
  then show ?case by simp
next
  case (Cons e es)
  then have e: "\<not> isEmpty e" and later: "\<forall>b \<in> set es. key (stop e) \<le> key (start b)"
    and ih: "well_formed (cut_span iv es)"
    by (auto simp: well_formed_Cons)
  have after: "key (stop e) \<le> key (start y)" if "y \<in> set (cut_span iv es)" for y
  proof -
    from cut_span_within[OF assms(1) that] obtain b where "b \<in> set es" "key (start b) \<le> key (start y)"
      by blast
    with later show ?thesis by (meson order_trans)
  qed
  show ?case
  proof (cases "compare (stop e) (start iv) \<le> 0 \<or> compare (stop iv) (start e) \<le> 0")
    case True
    with e ih after show ?thesis by (simp add: well_formed_Cons)
  next
    case False
    then have f: "key (start iv) < key (stop e)" "key (start e) < key (stop iv)"
      by (auto simp: to_key)
    from assms(1) have ne: "key (start iv) < key (stop iv)" by (simp add: to_key)
    have a2: "key (start iv) \<le> key (start y)" if "y \<in> set (cut_span iv es)" for y
      using after[OF that] f by (meson less_imp_le order_trans)
    show ?thesis
      using False ih after a2 f ne
      by (auto simp: well_formed_Cons well_formed_append to_key)
  qed
qed

lemma payloads_at_append [simp]:
  "payloads_at (xs @ ys) t = payloads_at xs t @ payloads_at ys t"
  by (simp add: payloads_at_def)

lemma payloads_at_Nil [simp]: "payloads_at [] t = []"
  by (simp add: payloads_at_def)

lemma payloads_at_Cons:
  "payloads_at (e # es) t = (if contains e t then data e # payloads_at es t else payloads_at es t)"
  by (simp add: payloads_at_def)

lemma payloads_at_none:
  "(\<And>x. x \<in> set xs \<Longrightarrow> \<not> contains x t) \<Longrightarrow> payloads_at xs t = []"
  by (simp add: payloads_at_def filter_empty_conv)

lemma cut_span_payloads:
  assumes "\<not> isEmpty iv"
  shows "payloads_at (cut_span iv v) t = (if contains iv t then [] else payloads_at v t)"
proof (induction v)
  case Nil
  then show ?case by simp
next
  case (Cons e es)
  from assms have ne: "key (start iv) < key (stop iv)" by (simp add: to_key)
  show ?case
    using Cons ne
    by (auto simp: payloads_at_Cons to_key)
qed

lemma interval_eq:
  "start x = a \<Longrightarrow> stop x = b \<Longrightarrow> data x = c \<Longrightarrow>
   \<lparr>start = a, stop = b, data = c\<rparr> = (x::TimeInterval)"
  by (cases x) simp

lemma others_allocated: "others h d refs \<Longrightarrow> list_all (\<lambda>e. e < fresh h) refs"
  by (auto simp: others_def list_all_iff)

lemma merge_prev_view:
  assumes m: "merge_prev cur before after h = (c, b1, a1, h1)"
    and b: "others h d before" and d: "data (cells h cur) = d"
    and s: "\<forall>x \<in> set (view h before). key (stop x) \<le> key (start (cells h cur))"
    and ne: "\<not> isEmpty (cells h cur)"
  shows "a1 = after \<and> heap_le h h1 \<and> view h1 b1 = view h before
         \<and> list_all (\<lambda>e. e < fresh h1) b1"
proof (cases "before = []")
  case True
  with m show ?thesis by (simp add: merge_prev_def)
next
  case False
  let ?e = "cells h (last before)"
  let ?iv = "cells h cur"
  from others_last[OF b False] d have dne: "data ?e \<noteq> data ?iv" "last before < fresh h" by auto
  from False s have le: "key (stop ?e) \<le> key (start ?iv)"
    by (simp add: view_def)
  show ?thesis
  proof (cases "compare (stop ?e) (start ?iv) \<ge> 0")
    case False
    with m \<open>before \<noteq> []\<close> b others_allocated show ?thesis
      by (simp add: merge_prev_def Let_def)
  next
    case True
    with le have "key (stop ?e) = key (start ?iv)" by (simp add: to_key)
    then have eq: "stop ?e = start ?iv" by (simp add: key_eq)
    from ne have "\<not> compare (stop ?e) (stop ?iv) > 0"
      unfolding eq by (auto simp: to_key)
    with m True \<open>before \<noteq> []\<close> dne
    have r: "a1 = after" "b1 = butlast before @ [fresh h]"
      "h1 = h\<lparr>cells := (cells h)(fresh h := \<lparr>start = start ?e, stop = start ?iv, data = data ?e\<rparr>),
              fresh := Suc (fresh h)\<rparr>"
      by (auto simp: merge_prev_def Let_def new_TimeInterval_def)
    have p: "\<lparr>start = start ?e, stop = start ?iv, data = data ?e\<rparr> = ?e"
      using eq by (intro interval_eq) simp_all
    have hl: "heap_le h h1" unfolding r by (simp add: heap_le_def)
    have al: "list_all (\<lambda>e. e < fresh h) (butlast before)"
      using others_allocated[OF others_butlast[OF b]] .
    have "view h1 (butlast before) = view h (butlast before)"
      using view_heap_le[OF hl al] .
    moreover have "cells h1 (fresh h) = ?e" unfolding r using p by simp
    moreover have "view h before = view h (butlast before) @ [?e]"
      using False by (metis append_butlast_last_id view_simps)
    moreover have "list_all (\<lambda>e. e < fresh h1) b1"
      using allocated_mono[OF hl al] unfolding r(2) by (simp add: r(3))
    ultimately show ?thesis using r(1,2) hl by simp
  qed
qed

lemma merge_next_view:
  assumes m: "merge_next cur after h = (c, a1, h1)"
    and o: "others h d after" and d: "data (cells h cur) = d"
    and s: "\<forall>x \<in> set (view h after). key (stop (cells h cur)) \<le> key (start x) \<and> \<not> isEmpty x"
  shows "heap_le h h1 \<and> view h1 a1 = view h after \<and> list_all (\<lambda>e. e < fresh h1) a1"
proof (cases after)
  case Nil
  with m show ?thesis by simp
next
  case (Cons n ns)
  let ?iv = "cells h cur"
  let ?e = "cells h n"
  from o d Cons have dne: "data ?e \<noteq> data ?iv" "n < fresh h" "others h d ns" by auto
  from s Cons have le: "key (stop ?iv) \<le> key (start ?e)" and nee: "\<not> isEmpty ?e" by auto
  show ?thesis
  proof (cases "compare (stop ?iv) (start ?e) \<ge> 0")
    case False
    with m Cons o others_allocated show ?thesis by (auto simp: Let_def)
  next
    case True
    with le have "key (stop ?iv) = key (start ?e)" by (simp add: to_key)
    then have eq: "stop ?iv = start ?e" by (simp add: key_eq)
    have p: "\<lparr>start = stop ?iv, stop = stop ?e, data = data ?e\<rparr> = ?e"
      using eq by (intro interval_eq) simp_all
    let ?h = "h\<lparr>cells := (cells h)(fresh h := ?e), fresh := Suc (fresh h)\<rparr>"
    from m Cons True dne nee p
    have r: "a1 = fresh h # ns" "h1 = ?h"
      by (auto simp: Let_def new_TimeInterval_def)
    have hl: "heap_le h h1" unfolding r by (simp add: heap_le_def)
    have al: "list_all (\<lambda>e. e < fresh h) ns" using others_allocated[OF dne(3)] .
    from view_heap_le[OF hl al] allocated_mono[OF hl al] hl
    show ?thesis unfolding Cons r(1) by (simp add: r(2))
  qed
qed

lemma dropWhile_downward:
  "sorted_wrt (\<lambda>a b. P b \<longrightarrow> P a) xs \<Longrightarrow> y \<in> set (dropWhile P xs) \<Longrightarrow> \<not> P y"
  by (induction xs) (auto split: if_splits)

lemma well_formed_starts:
  "well_formed v \<Longrightarrow> sorted_wrt (\<lambda>a b. key (start b) < key c \<longrightarrow> key (start a) < key c) v"
proof (induction v)
  case Nil
  then show ?case by simp
next
  case (Cons e es)
  then have "\<forall>b \<in> set es. key (start e) < key (start b)"
    by (auto simp: well_formed_Cons to_key)
  with Cons show ?case by (auto simp: well_formed_Cons)
qed

lemma insert_before:
  assumes "\<forall>x \<in> set v. key (stop x) \<le> key (start iv) \<or> key (stop iv) \<le> key (start x)"
    and "\<not> isEmpty iv" and "x \<in> set (takeWhile (\<lambda>e. lessThan_jd (start e) (start iv)) v)"
  shows "key (stop x) \<le> key (start iv)"
proof -
  from assms(3) have "x \<in> set v" "key (start x) < key (start iv)"
    by (auto dest: set_takeWhileD simp: to_key)
  with assms(1,2) show ?thesis by (auto simp: to_key)
qed

lemma insert_after:
  assumes "well_formed v"
    and "\<forall>x \<in> set v. key (stop x) \<le> key (start iv) \<or> key (stop iv) \<le> key (start x)"
    and "x \<in> set (dropWhile (\<lambda>e. lessThan_jd (start e) (start iv)) v)"
  shows "key (stop iv) \<le> key (start x) \<and> \<not> isEmpty x"
proof -
  from assms(3) have xv: "x \<in> set v" by (auto dest: set_dropWhileD)
  with assms(1) have ne: "\<not> isEmpty x" by (auto simp: well_formed_def list_all_iff)
  have "\<not> lessThan_jd (start x) (start iv)"
    using dropWhile_downward[OF _ assms(3)] well_formed_starts[OF assms(1), of "start iv"]
    by (simp add: to_key)
  with xv assms(2) ne show ?thesis by (auto simp: to_key)
qed

lemma insert_wf:
  assumes "well_formed v"
    and "\<forall>x \<in> set v. key (stop x) \<le> key (start iv) \<or> key (stop iv) \<le> key (start x)"
    and "\<not> isEmpty iv"
  shows "well_formed (takeWhile (\<lambda>e. lessThan_jd (start e) (start iv)) v @ [iv]
                      @ dropWhile (\<lambda>e. lessThan_jd (start e) (start iv)) v)"
proof -
  let ?E = "\<lambda>e. lessThan_jd (start e) (start iv)"
  have "well_formed (takeWhile ?E v @ dropWhile ?E v)" using assms(1) by simp
  then have w: "well_formed (takeWhile ?E v)" "well_formed (dropWhile ?E v)"
    unfolding well_formed_append by blast+
  from assms(3) have ne: "key (start iv) < key (stop iv)" by (simp add: to_key)
  have b: "key (stop a) \<le> key (start iv)" if "a \<in> set (takeWhile ?E v)" for a
    using insert_before[OF assms(2,3) that] .
  have a: "key (stop iv) \<le> key (start b)" if "b \<in> set (dropWhile ?E v)" for b
    using insert_after[OF assms(1,2) that] by simp
  have ba: "key (stop a) \<le> key (start b)"
    if "a \<in> set (takeWhile ?E v)" "b \<in> set (dropWhile ?E v)" for a b
    using b[OF that(1)] a[OF that(2)] ne by (meson less_imp_le order_trans)
  show ?thesis
    using w assms(3) a b ba
    by (auto simp: well_formed_append well_formed_Cons)
qed

lemma insert_payloads:
  assumes "well_formed v"
    and "\<forall>x \<in> set v. key (stop x) \<le> key (start iv) \<or> key (stop iv) \<le> key (start x)"
    and "\<not> isEmpty iv"
  shows "payloads_at (takeWhile (\<lambda>e. lessThan_jd (start e) (start iv)) v @ [iv]
                      @ dropWhile (\<lambda>e. lessThan_jd (start e) (start iv)) v) t
         = (if contains iv t then [data iv] else payloads_at v t)"
proof -
  let ?E = "\<lambda>e. lessThan_jd (start e) (start iv)"
  have v: "payloads_at v t = payloads_at (takeWhile ?E v) t @ payloads_at (dropWhile ?E v) t"
    by (metis payloads_at_append takeWhile_dropWhile_id)
  show ?thesis
  proof (cases "contains iv t")
    case False
    then show ?thesis by (simp add: v payloads_at_Cons)
  next
    case True
    have "\<not> contains x t" if "x \<in> set (takeWhile ?E v)" for x
      using insert_before[OF assms(2,3) that] True by (auto simp: to_key)
    then have "payloads_at (takeWhile ?E v) t = []"
      by (intro payloads_at_none)
    moreover have "\<not> contains x t" if "x \<in> set (dropWhile ?E v)" for x
      using insert_after[OF assms(1,2) that] True by (auto simp: to_key)
    then have "payloads_at (dropWhile ?E v) t = []"
      by (intro payloads_at_none)
    ultimately show ?thesis using True by (simp add: payloads_at_Cons)
  qed
qed

lemma well_formed_all_before:
  assumes "well_formed v" "v \<noteq> []" "key (stop (last v)) < key c"
  shows "\<forall>x \<in> set v. key (start x) < key c"
proof -
  from assms(2) have v: "v = butlast v @ [last v]" by simp
  from assms(1) have w: "well_formed (butlast v @ [last v])" using v by simp
  then have l: "key (start (last v)) < key (stop (last v))"
    and b: "\<forall>a \<in> set (butlast v). key (start a) < key (stop a) \<and> key (stop a) \<le> key (start (last v))"
    unfolding well_formed_append well_formed_Cons
    by (auto simp: to_key well_formed_def list_all_iff)
  have "key (start x) < key c" if "x \<in> set (butlast v @ [last v])" for x
  proof (cases "x = last v")
    case True
    with l assms(3) show ?thesis by simp
  next
    case False
    with that have "x \<in> set (butlast v)" by simp
    with b have "key (start x) < key (stop x)" "key (stop x) \<le> key (start (last v))" by auto
    with l assms(3) show ?thesis by simp
  qed
  with v show ?thesis by metis
qed

lemma view_takeWhile:
  "view h (takeWhile (\<lambda>e. P (cells h e)) coll) = takeWhile P (view h coll)"
  by (simp add: view_def takeWhile_map comp_def)

lemma view_dropWhile:
  "view h (dropWhile (\<lambda>e. P (cells h e)) coll) = dropWhile P (view h coll)"
  by (simp add: view_def dropWhile_map comp_def)

lemma addInterval_view:
  assumes a: "addInterval r coll h = (coll2, h2)"
    and o: "others h d coll" and d: "data (cells h r) = d" and r: "r < fresh h"
    and ne: "\<not> isEmpty (cells h r)"
    and wf: "well_formed (view h coll)"
    and dis: "\<forall>x \<in> set (view h coll). key (stop x) \<le> key (start (cells h r))
                                      \<or> key (stop (cells h r)) \<le> key (start x)"
  shows "\<exists>b a. coll2 = b @ [r] @ a
           \<and> view h2 b = takeWhile (\<lambda>e. lessThan_jd (start e) (start (cells h r))) (view h coll)
           \<and> view h2 a = dropWhile (\<lambda>e. lessThan_jd (start e) (start (cells h r))) (view h coll)
           \<and> heap_le h h2 \<and> list_all (\<lambda>e. e < fresh h2) coll2"
proof (cases "coll = [] \<or> greaterThan_jd (start (cells h r)) (stop (cells h (last coll)))")
  case True
  let ?E = "\<lambda>e. lessThan_jd (start e) (start (cells h r))"
  from True a ne have eq: "coll2 = coll @ [r]" "h2 = h" by (auto simp: addInterval_def Let_def)
  have "\<forall>x \<in> set (view h coll). ?E x"
  proof (cases "coll = []")
    case True
    then show ?thesis by simp
  next
    case False
    with True have "key (stop (last (view h coll))) < key (start (cells h r))"
      by (simp add: view_def last_map to_key)
    from well_formed_all_before[OF wf _ this] False show ?thesis
      by (simp add: view_def to_key)
  qed
  then have t: "takeWhile ?E (view h coll) = view h coll" "dropWhile ?E (view h coll) = []"
    by (simp_all add: takeWhile_eq_all_conv)
  have "coll2 = coll @ [r] @ []" using eq by simp
  moreover have "view h2 coll = takeWhile ?E (view h coll)" unfolding t eq(2) ..
  moreover have "view h2 [] = dropWhile ?E (view h coll)" unfolding t by simp
  moreover have "heap_le h h2 \<and> list_all (\<lambda>e. e < fresh h2) coll2"
    using eq others_allocated[OF o] r by simp
  ultimately show ?thesis by blast
next
  case False
  let ?iv = "cells h r"
  let ?E = "\<lambda>e. lessThan_jd (start e) (start ?iv)"
  let ?earlier = "\<lambda>e. lessThan_jd (start (cells h e)) (start ?iv)"
  let ?before = "takeWhile ?earlier coll"
  let ?after = "dropWhile ?earlier coll"
  obtain c b1 a1 h3 where mp: "merge_prev r ?before ?after h = (c, b1, a1, h3)"
    by (metis prod_cases4)
  obtain c1 a2 h4 where mn: "merge_next c a1 h3 = (c1, a2, h4)"
    by (metis prod_cases3)
  from a False ne mp mn have eq: "coll2 = b1 @ [c1] @ a2" "h2 = h4"
    by (auto simp: addInterval_def Let_def)
  have vb: "view h ?before = takeWhile ?E (view h coll)" by (rule view_takeWhile)
  have va: "view h ?after = dropWhile ?E (view h coll)" by (rule view_dropWhile)
  from merge_prev_others[OF mp others_takeWhile[OF o] others_dropWhile[OF o] d]
  have p: "c = r" "heap_le h h3" "others h3 d b1" "others h3 d a1" by auto
  have sb: "\<forall>x \<in> set (view h ?before). key (stop x) \<le> key (start ?iv)"
    unfolding vb using insert_before[OF dis ne] by blast
  from merge_prev_view[OF mp others_takeWhile[OF o] d sb ne]
  have pv: "a1 = ?after" "view h3 b1 = view h ?before" "list_all (\<lambda>e. e < fresh h3) b1" by auto
  have r3: "cells h3 r = ?iv" "r < fresh h3" using p(2) r by (auto simp: heap_le_def)
  have va3: "view h3 ?after = view h ?after"
    using view_heap_le[OF p(2) others_allocated[OF others_dropWhile[OF o]]] .
  have sa: "\<forall>x \<in> set (view h3 a1). key (stop (cells h3 c)) \<le> key (start x) \<and> \<not> isEmpty x"
    unfolding pv(1) va3 va p(1) r3(1) using insert_after[OF wf dis] by blast
  have d3: "data (cells h3 c) = d" "c < fresh h3" using p(1) r3 d by simp_all
  from merge_next_others[OF mn p(4) d3] have n: "c1 = r" "heap_le h3 h4" using p(1) by auto
  from merge_next_view[OF mn p(4) d3(1) sa]
  have nv: "view h4 a2 = view h3 a1" "list_all (\<lambda>e. e < fresh h4) a2" by auto
  have b4: "view h4 b1 = view h3 b1" using view_heap_le[OF n(2) pv(3)] .
  have "coll2 = b1 @ [r] @ a2" using eq n(1) by simp
  moreover have "view h2 b1 = takeWhile ?E (view h coll)"
    using b4 pv(2) vb eq(2) by simp
  moreover have "view h2 a2 = dropWhile ?E (view h coll)"
    using nv(1) pv(1) va3 va eq(2) by simp
  moreover have "heap_le h h2" using p(2) n(2) heap_le_trans eq(2) by blast
  moreover have "list_all (\<lambda>e. e < fresh h2) coll2"
    using allocated_mono[OF n(2) pv(3)] nv(2) n r3(2) eq
    by (auto simp: heap_le_def)
  ultimately show ?thesis by blast
qed

lemma refs_at_none:
  "(\<And>x. x \<in> set (view h refs) \<Longrightarrow> \<not> contains x t) \<Longrightarrow> refs_at h refs t = []"
  by (auto simp: refs_at_def view_def filter_empty_conv)

lemma refs_at_append [simp]:
  "refs_at h (xs @ ys) t = refs_at h xs t @ refs_at h ys t"
  by (simp add: refs_at_def)

lemma Pilot_add_cuts_back:
  assumes i: "o_interval (objects st ob) = Some r"
    and r: "r < fresh (iheap st)"
    and ne: "\<not> isEmpty (cells (iheap st) r)"
    and o: "list_all (\<lambda>e. e < fresh (iheap st)
                          \<and> (e \<noteq> r \<longrightarrow> data (cells (iheap st) e) \<noteq> data (cells (iheap st) r)))
              (collection_of (o_class (objects st ob)) (pilot_heap st this))"
    and wf: "well_formed (view (iheap st)
               (collection_of (o_class (objects st ob)) (pilot_heap st this)))"
    and res: "Pilot_add this ob st = Inr st1"
  shows "well_formed (view (iheap st1)
           (collection_of (o_class (objects st1 ob)) (pilot_heap st1 this)))
         \<and> (if contains (cells (iheap st) r) t
            then refs_at (iheap st1)
                   (collection_of (o_class (objects st1 ob)) (pilot_heap st1 this)) t = [r]
            else payloads_at (view (iheap st1)
                   (collection_of (o_class (objects st1 ob)) (pilot_heap st1 this))) t
                 = payloads_at (view (iheap st)
                     (collection_of (o_class (objects st ob)) (pilot_heap st this))) t)"
proof -
  let ?c = "o_class (objects st ob)"
  let ?h = "iheap st"
  let ?iv = "cells ?h r"
  let ?d = "data ?iv"
  let ?coll = "collection_of ?c (pilot_heap st this)"
  let ?E = "\<lambda>e. lessThan_jd (start e) (start ?iv)"
  obtain coll1 h1 where rm: "removeInterval r ?coll ?h = (coll1, h1)" by fastforce
  obtain coll2 h2 where ad: "addInterval r coll1 h1 = (coll2, h2)" by fastforce
  obtain k h3 where cl: "clone_interval r h2 = (k, h3)" by fastforce
  obtain g h4 where gl: "addInterval k (intervals st) h3 = (g, h4)" by fastforce
  from rm ne have rs: "remove_span ?iv ?coll ?h = (coll1, h1)"
    by (simp add: removeInterval_def)
  from o have al: "list_all (\<lambda>e. e < fresh ?h) ?coll" by (auto simp: list_all_iff)
  from remove_span_others[OF rs o r refl ne]
  have 1: "heap_le ?h h1" "others h1 ?d coll1" by auto
  from remove_span_view[OF rs al]
  have v1: "view h1 coll1 = cut_span ?iv (view ?h ?coll)" by simp
  have r1: "cells h1 r = ?iv" "r < fresh h1"
    using 1 r by (auto simp: heap_le_def)
  have wf1: "well_formed (view h1 coll1)"
    unfolding v1 using cut_span_wf[OF ne wf] .
  have dis: "\<forall>x \<in> set (view h1 coll1). key (stop x) \<le> key (start ?iv)
                                         \<or> key (stop ?iv) \<le> key (start x)"
    unfolding v1 using cut_span_disjoint[OF ne] by blast
  have "\<exists>b a. coll2 = b @ [r] @ a
           \<and> view h2 b = takeWhile (\<lambda>e. lessThan_jd (start e) (start (cells h1 r))) (view h1 coll1)
           \<and> view h2 a = dropWhile (\<lambda>e. lessThan_jd (start e) (start (cells h1 r))) (view h1 coll1)
           \<and> heap_le h1 h2 \<and> list_all (\<lambda>e. e < fresh h2) coll2"
    using ne wf1 dis
    by (intro addInterval_view[OF ad 1(2)]) (simp_all add: r1)
  then obtain b a where 2: "coll2 = b @ [r] @ a"
    "view h2 b = takeWhile ?E (view h1 coll1)" "view h2 a = dropWhile ?E (view h1 coll1)"
    "heap_le h1 h2" "list_all (\<lambda>e. e < fresh h2) coll2"
    unfolding r1 by blast
  have 3: "heap_le h2 h3" using cl by (auto simp: clone_interval_def new_TimeInterval_le)
  have 4: "heap_le h3 h4" using gl by (rule addInterval_le)
  have 24: "heap_le h2 h4" using 3 4 heap_le_trans by blast
  have r4: "cells h4 r = ?iv"
    using 2(4) 24 r1 by (auto simp: heap_le_def)
  from 2(1,5) have alb: "list_all (\<lambda>e. e < fresh h2) b" "list_all (\<lambda>e. e < fresh h2) a"
    by simp_all
  have vb: "view h4 b = takeWhile ?E (view h1 coll1)"
    using view_heap_le[OF 24 alb(1)] 2(2) by simp
  have va: "view h4 a = dropWhile ?E (view h1 coll1)"
    using view_heap_le[OF 24 alb(2)] 2(3) by simp
  have v4: "view h4 coll2 = takeWhile ?E (view h1 coll1) @ [?iv] @ dropWhile ?E (view h1 coll1)"
    unfolding 2(1) using vb va r4 by simp
  have st1: "st1 =
     st\<lparr>pilot_heap := (pilot_heap st)
                                 (this := set_collection ?c coll2 (pilot_heap st this)),
              iheap := h4, intervals := g,
              objects := (objects st)(ob := (objects st ob)\<lparr>o_pilot := Some this\<rparr>)\<rparr>"
    using res i rm ad cl gl by (simp add: Pilot_add_def Let_def)
  have c1: "collection_of (o_class (objects st1 ob)) (pilot_heap st1 this) = coll2"
    "iheap st1 = h4"
    by (cases ?c; simp add: st1 collection_of_def set_collection_def)+
  have w: "well_formed (view h4 coll2)"
    unfolding v4 using insert_wf[OF wf1 dis ne] .
  have p: "payloads_at (view h4 coll2) t = payloads_at (view ?h ?coll) t" if "\<not> contains ?iv t"
  proof -
    have "payloads_at (view h4 coll2) t
            = (if contains ?iv t then [data ?iv] else payloads_at (view h1 coll1) t)"
      unfolding v4 by (rule insert_payloads[OF wf1 dis ne])
    also have "\<dots> = payloads_at (cut_span ?iv (view ?h ?coll)) t"
      using that v1 by simp
    also have "\<dots> = payloads_at (view ?h ?coll) t"
      using that by (simp add: cut_span_payloads[OF ne])
    finally show ?thesis .
  qed
  have f: "refs_at h4 coll2 t = [r]" if t: "contains ?iv t"
  proof -
    have "\<not> contains x t" if "x \<in> set (view h4 b)" for x
      using insert_before[OF dis ne that[unfolded vb]] t by (auto simp: to_key)
    then have "refs_at h4 b t = []" by (rule refs_at_none)
    moreover have "\<not> contains x t" if "x \<in> set (view h4 a)" for x
      using insert_after[OF wf1 dis that[unfolded va]] t by (auto simp: to_key)
    then have "refs_at h4 a t = []" by (rule refs_at_none)
    ultimately show ?thesis
      unfolding 2(1) using t r4 by (simp add: refs_at_def)
  qed
  from w p f show ?thesis unfolding c1 by simp
qed

section \<open>Loading: evaluation\<close>

lemma smoother_returns: "\<exists>t. smoother samples = Some t"
  using tracker_feed_returns tracker_flush_returns
  by (metis smoother_def option.simps(5))

lemma Flight_create_eq:
  "Flight_create ob pilotName (s # ss) st =
     (case Pilot_ensure pilotName st of
        Inl e \<Rightarrow> Inl e
      | Inr (Not_pilot b, st1) \<Rightarrow> Inl TypeError
      | Inr (Pilot_ref p, st1) \<Rightarrow>
          Pilot_add p ob
            (attach_interval ob
               \<lparr>start = time s, stop = time (last (s # ss)), data = Some ob\<rparr> st1))"
proof -
  obtain t where "smoother (s # ss) = Some t" using smoother_returns by blast
  then show ?thesis
    by (simp add: Flight_create_def split: sum.splits prod.splits looked_up.splits)
qed

lemma initialize_eval:
  "initialize c =
     (empty_state c)
       \<lparr>pilots := [([], 0)],
        pilot_heap := (pilot_heap (empty_state c))
           (0 := \<lparr>p_name = [], p_index = 0, p_color = ''#3498db'', flights = [], videos = [],
                  next_pilot = Some 0, prev_pilot = Some 0\<rparr>),
        pilot_fresh := Suc 0,
        colors := tl all_colors,
        cur_pilot := 0, any_pilot := 0\<rparr>"
  by (simp add: initialize_def Pilot_ensure_def pilots_lookup_def inherited_def
        OBJECT_PROTOTYPE_def Pilot_new_def empty_state_def all_colors_def
        object_values_def property_order_def Let_def)

lemmas eval_pilot = Pilot_ensure_def pilots_lookup_def inherited_def OBJECT_PROTOTYPE_def
  Pilot_new_def object_values_def property_order_def
  is_array_index_def digit_of_def decimal_value_def all_colors_def

lemmas eval_coll = Pilot_add_def Pilot_remove_def removeInterval_def addInterval_def merge_prev_def
  clone_interval_def new_TimeInterval_def attach_interval_def isEmpty_def collection_of_def
  set_collection_def lessThan_jd_def greaterThan_jd_def

lemmas eval_video = Video_load_def Video_new_def Video_create_def validate_rate_def
  check_position_def completeVideo_def parseDuration_def DEFAULT_DURATION_def
  IMAGE_EXTS_def endsWith_def toLowerCase_def addSeconds_within_day

lemmas eval_loaded = loaded_def rebuild_intervals_def add_all_def Pilot_change_def

lemmas eval_tick = onTick_def resolve_flight_def resolve_video_def payload_at_def
  findIntervalContainingDate_def indexOf_def get_def contains_def view_def bnot_def
  changeFlight_def changeVideo_def keypress_delete_def destroy_def resolver_init_def

lemma two_overlapping_flights:
  "case Flight_load ''a.igc'' ''ann'' [fix_at 10, fix_at 20] (initialize late_clock) of
     Inl e \<Rightarrow> False
   | Inr (a, st1) \<Rightarrow>
       (case Flight_load ''b.igc'' ''ann'' [fix_at 15, fix_at 25] st1 of
          Inl e \<Rightarrow> False
        | Inr (b, st2) \<Rightarrow>
            map (cells (iheap st1)) (flights (pilot_heap st1 1))
              = [\<lparr>start = at_day 2460000 10, stop = at_day 2460000 20, data = Some a\<rparr>]
            \<and> map (cells (iheap st2)) (flights (pilot_heap st2 1))
              = [\<lparr>start = at_day 2460000 10, stop = at_day 2460000 15, data = Some a\<rparr>,
                 \<lparr>start = at_day 2460000 15, stop = at_day 2460000 25, data = Some b\<rparr>]
            \<and> warnings st2 = [])"
  by (simp add: Flight_load_def Flight_new_def Flight_create_eq initialize_eval empty_state_def
        fix_at_def eval_pilot eval_coll Let_def)

lemma second_flight_eval:
  "o_interval (objects second_flight (Suc 0)) = Some 2"
  "o_class (objects second_flight (Suc 0)) = Flight"
  "fresh (iheap second_flight) = 3"
  "flights (pilot_heap second_flight (Suc 0)) = [0]"
  "cells (iheap second_flight) 0
     = \<lparr>start = at_day 2460000 10, stop = at_day 2460000 20, data = Some 0\<rparr>"
  "cells (iheap second_flight) 2
     = \<lparr>start = at_day 2460000 15, stop = at_day 2460000 25, data = Some 1\<rparr>"
  "warnings second_flight = []"
  by (simp_all add: second_flight_def one_flight_def Flight_load_def Flight_new_def
        Flight_create_eq initialize_eval empty_state_def fix_at_def
        eval_pilot eval_coll Let_def)

lemma flight_and_clip_timeline:
  "case flight_and_clip of
     Inl e \<Rightarrow> False
   | Inr st \<Rightarrow>
       map (cells (iheap st)) (intervals st)
         = [\<lparr>start = at_day 2460000 10, stop = at_day 2460000 20, data = Some 0\<rparr>,
            \<lparr>start = at_day 2460000 20, stop = at_day 2460000 30, data = Some 1\<rparr>,
            \<lparr>start = at_day 2460000 30, stop = at_day 2460000 40, data = Some 0\<rparr>]
       \<and> map (cells (iheap st)) (flights (pilot_heap st 1))
         = [\<lparr>start = at_day 2460000 10, stop = at_day 2460000 40, data = Some 0\<rparr>]
       \<and> currentTime (viewer_clock st) = at_day 2460000 10
       \<and> resolve_flight st = Some 0 \<and> resolve_video st = None"
  by (simp add: flight_and_clip_def clip_def no_parse_def Flight_load_def Flight_new_def
        Flight_create_eq initialize_eval empty_state_def fix_at_def late_clock_def
        eval_pilot eval_coll eval_video eval_loaded eval_tick Let_def)

section \<open>Adding an interval that overlaps\<close>

text \<open>
  Claim C1, as amended. \<open>Pilot.add\<close> does not reject an interval, overlapping or not. For
  every pilot and every object whose interval is allocated and not empty, when no other
  interval of the pilot's index carries the same payload: \<open>Pilot.add\<close> returns normally,
  logs no warning, records the pilot as the owner of the object, and afterwards the index
  holds the very interval object of the object, unchanged. When the index was well formed
  (no empty interval, in order, no overlap), it is well formed afterwards, and the span of
  the interval has been cleared for it, the intervals that were there cut back: at every
  date within the span the object's interval is the only interval of the index; at every
  date outside the span the index has the payloads it had.
\<close>

theorem Pilot_add_accepts:
  assumes "o_interval (objects st ob) = Some r"
    and "r < fresh (iheap st)"
    and "\<not> isEmpty (cells (iheap st) r)"
    and "list_all (\<lambda>e. e < fresh (iheap st)
                          \<and> (e \<noteq> r \<longrightarrow> data (cells (iheap st) e) \<noteq> data (cells (iheap st) r)))
              (collection_of (o_class (objects st ob)) (pilot_heap st this))"
  shows "\<exists>st1. Pilot_add this ob st = Inr st1
            \<and> warnings st1 = warnings st
            \<and> o_pilot (objects st1 ob) = Some this
            \<and> r \<in> set (collection_of (o_class (objects st1 ob)) (pilot_heap st1 this))
            \<and> cells (iheap st1) r = cells (iheap st) r
            \<and> (well_formed (view (iheap st)
                  (collection_of (o_class (objects st ob)) (pilot_heap st this)))
               \<longrightarrow> well_formed (view (iheap st1)
                      (collection_of (o_class (objects st1 ob)) (pilot_heap st1 this)))
                   \<and> (\<forall>t. if contains (cells (iheap st) r) t
                          then refs_at (iheap st1)
                                 (collection_of (o_class (objects st1 ob)) (pilot_heap st1 this)) t
                               = [r]
                          else payloads_at (view (iheap st1)
                                 (collection_of (o_class (objects st1 ob)) (pilot_heap st1 this))) t
                               = payloads_at (view (iheap st)
                                   (collection_of (o_class (objects st ob)) (pilot_heap st this))) t))"
proof -
  from Pilot_add_accepts_aux[OF assms] obtain st1 where
    a: "Pilot_add this ob st = Inr st1" "warnings st1 = warnings st"
       "o_pilot (objects st1 ob) = Some this"
       "r \<in> set (collection_of (o_class (objects st1 ob)) (pilot_heap st1 this))"
       "cells (iheap st1) r = cells (iheap st) r"
    by blast
  from Pilot_add_cuts_back[OF assms _ a(1)] a show ?thesis by blast
qed

theorem Pilot_add_accepts_witness:
  "contains (cells (iheap second_flight) 0) (start (cells (iheap second_flight) 2))
   \<and> well_formed (view (iheap second_flight) (flights (pilot_heap second_flight 1)))
   \<and> (\<exists>st1. Pilot_add 1 1 second_flight = Inr st1
            \<and> warnings st1 = warnings second_flight
            \<and> o_pilot (objects st1 1) = Some 1
            \<and> 2 \<in> set (flights (pilot_heap st1 1))
            \<and> cells (iheap st1) 2 = cells (iheap second_flight) 2
            \<and> well_formed (view (iheap st1) (flights (pilot_heap st1 1)))
            \<and> (\<forall>t. if contains (cells (iheap second_flight) 2) t
                   then refs_at (iheap st1) (flights (pilot_heap st1 1)) t = [2]
                   else payloads_at (view (iheap st1) (flights (pilot_heap st1 1))) t
                        = payloads_at (view (iheap second_flight)
                            (flights (pilot_heap second_flight 1))) t))"
proof -
  have c: "contains (cells (iheap second_flight) 0) (start (cells (iheap second_flight) 2))"
    by (simp add: second_flight_eval contains_def)
  have w: "well_formed (view (iheap second_flight) (flights (pilot_heap second_flight 1)))"
    by (simp add: second_flight_eval well_formed_def view_def isEmpty_def)
  have e: "\<not> isEmpty (cells (iheap second_flight) 2)"
    by (simp add: second_flight_eval isEmpty_def)
  have l: "list_all (\<lambda>e. e < fresh (iheap second_flight)
                          \<and> (e \<noteq> 2 \<longrightarrow> data (cells (iheap second_flight) e)
                                          \<noteq> data (cells (iheap second_flight) 2)))
              (collection_of (o_class (objects second_flight 1)) (pilot_heap second_flight 1))"
    by (simp add: second_flight_eval collection_of_def)
  have k: "o_class (objects st1 1) = Flight" if "Pilot_add 1 1 second_flight = Inr st1" for st1
    using that
    by (auto simp: Pilot_add_def Let_def second_flight_eval split: prod.splits)
  from Pilot_add_accepts[of second_flight 1 2 1] e l
  obtain st1 where s: "Pilot_add 1 1 second_flight = Inr st1
            \<and> warnings st1 = warnings second_flight
            \<and> o_pilot (objects st1 1) = Some 1
            \<and> 2 \<in> set (collection_of (o_class (objects st1 1)) (pilot_heap st1 1))
            \<and> cells (iheap st1) 2 = cells (iheap second_flight) 2
            \<and> (well_formed (view (iheap second_flight)
                  (collection_of (o_class (objects second_flight 1)) (pilot_heap second_flight 1)))
               \<longrightarrow> well_formed (view (iheap st1)
                      (collection_of (o_class (objects st1 1)) (pilot_heap st1 1)))
                   \<and> (\<forall>t. if contains (cells (iheap second_flight) 2) t
                          then refs_at (iheap st1)
                                 (collection_of (o_class (objects st1 1)) (pilot_heap st1 1)) t
                               = [2]
                          else payloads_at (view (iheap st1)
                                 (collection_of (o_class (objects st1 1)) (pilot_heap st1 1))) t
                               = payloads_at (view (iheap second_flight)
                                   (collection_of (o_class (objects second_flight 1))
                                      (pilot_heap second_flight 1))) t))"
    by (auto simp: second_flight_eval)
  have f: "collection_of (o_class (objects st1 1)) (pilot_heap st1 1) = flights (pilot_heap st1 1)"
    "collection_of (o_class (objects second_flight 1)) (pilot_heap second_flight 1)
       = flights (pilot_heap second_flight 1)"
    using k s by (simp_all add: collection_of_def second_flight_eval)
  from s w c show ?thesis unfolding f by blast
qed

lemma overlapping_insert_evaluated:
  "contains (cells (iheap second_flight) 0) (start (cells (iheap second_flight) 2))
   \<and> collection_of Flight (pilot_heap second_flight 1) = [0]
   \<and> o_interval (objects second_flight 1) = Some 2
   \<and> (case Pilot_add 1 1 second_flight of
         Inl e \<Rightarrow> False
       | Inr st \<Rightarrow>
           map (cells (iheap st)) (collection_of Flight (pilot_heap st 1))
             = [\<lparr>start = at_day 2460000 10, stop = at_day 2460000 15, data = Some 0\<rparr>,
                \<lparr>start = at_day 2460000 15, stop = at_day 2460000 25, data = Some 1\<rparr>]
           \<and> length (collection_of Flight (pilot_heap st 1))
               > length (collection_of Flight (pilot_heap second_flight 1))
           \<and> warnings st = [])"
  by (simp add: second_flight_def one_flight_def Flight_load_def Flight_new_def
        Flight_create_eq initialize_eval empty_state_def fix_at_def contains_def
        eval_pilot eval_coll Let_def)

text \<open>
  The claim as stated fails: the second flight (15 to 25) overlaps the flight in the index
  (10 to 20), and \<open>Pilot.add\<close> puts it in. The index grows from one interval to two, the
  first flight cut back to 10 to 15, and no warning is logged.
\<close>

theorem overlapping_insert_grows_index:
  "contains (cells (iheap second_flight) 0) (start (cells (iheap second_flight) 2))
   \<and> collection_of Flight (pilot_heap second_flight 1) = [0]
   \<and> o_interval (objects second_flight 1) = Some 2
   \<and> \<not> isl (Pilot_add 1 1 second_flight)
   \<and> map (cells (iheap (projr (Pilot_add 1 1 second_flight))))
         (collection_of Flight (pilot_heap (projr (Pilot_add 1 1 second_flight)) 1))
       = [\<lparr>start = at_day 2460000 10, stop = at_day 2460000 15, data = Some 0\<rparr>,
          \<lparr>start = at_day 2460000 15, stop = at_day 2460000 25, data = Some 1\<rparr>]
   \<and> length (collection_of Flight (pilot_heap (projr (Pilot_add 1 1 second_flight)) 1))
       > length (collection_of Flight (pilot_heap second_flight 1))
   \<and> warnings (projr (Pilot_add 1 1 second_flight)) = []"
  using overlapping_insert_evaluated
  by (cases "Pilot_add 1 1 second_flight") auto

section \<open>Removing a flight\<close>

text \<open>
  Claim C2 says that after a flight or video is destroyed the global collection holds no
  interval with it as payload. \<open>Pilot.remove\<close> takes the interval out of the pilot's
  collection only, and \<open>destroy\<close> clears the payload of the object \<open>this.interval\<close> only;
  nothing rebuilds \<open>state.intervals\<close>. In the session of the flight and the picture, the
  global collection holds two pieces of the flight, made when the picture was laid over it.
  After the Delete key destroyed the flight (it has no pilot and no interval, and the
  pilot's collection is empty), both pieces are still there with the flight as payload.
\<close>

theorem removed_flight_stays_in_timeline:
  "case delete_active flight_and_clip of
     Inl e \<Rightarrow> False
   | Inr (st, r) \<Rightarrow>
       o_pilot (objects st 0) = None \<and> o_interval (objects st 0) = None
       \<and> flights (pilot_heap st 1) = []
       \<and> map (cells (iheap st)) (intervals st)
         = [\<lparr>start = at_day 2460000 10, stop = at_day 2460000 20, data = Some 0\<rparr>,
            \<lparr>start = at_day 2460000 20, stop = at_day 2460000 30, data = Some 1\<rparr>,
            \<lparr>start = at_day 2460000 30, stop = at_day 2460000 40, data = Some 0\<rparr>]"
  by (simp add: delete_active_def flight_and_clip_def clip_def no_parse_def Flight_load_def Flight_new_def
        Flight_create_eq initialize_eval empty_state_def fix_at_def late_clock_def
        eval_pilot eval_coll eval_video eval_loaded eval_tick Let_def)

text \<open>
  Two more removals. A flight destroyed before \<open>loaded\<close> has run leaves its clone, with its
  payload, in the global collection. A flight that \<open>loaded\<close> put into the global
  collection as the object it is, destroyed, leaves that interval there with no payload.
\<close>

lemma removed_before_rebuild:
  "case Flight_load ''a.igc'' ''ann'' [fix_at 10, fix_at 20] (initialize late_clock) of
     Inl e \<Rightarrow> False
   | Inr (a, st1) \<Rightarrow>
       (case destroy a st1 of
          Inl e \<Rightarrow> False
        | Inr st2 \<Rightarrow>
            flights (pilot_heap st2 1) = []
            \<and> map (cells (iheap st2)) (intervals st2)
               = [\<lparr>start = at_day 2460000 10, stop = at_day 2460000 20, data = Some a\<rparr>])"
  by (simp add: Flight_load_def Flight_new_def destroy_def
        Flight_create_eq initialize_eval empty_state_def fix_at_def
        eval_pilot eval_coll Let_def)

lemma removed_alone_after_rebuild:
  "case Flight_load ''a.igc'' ''ann'' [fix_at 10, fix_at 20] (initialize late_clock) of
     Inl e \<Rightarrow> False
   | Inr (a, st1) \<Rightarrow>
       (case delete_active (loaded None (Pilot_change 1 st1)) of
          Inl e \<Rightarrow> False
        | Inr (st2, r) \<Rightarrow>
            flights (pilot_heap st2 1) = []
            \<and> map (cells (iheap st2)) (intervals st2)
               = [\<lparr>start = at_day 2460000 10, stop = at_day 2460000 20, data = None\<rparr>])"
  by (simp add: Flight_load_def Flight_new_def delete_active_def
        Flight_create_eq initialize_eval empty_state_def fix_at_def late_clock_def
        eval_pilot eval_coll eval_loaded eval_tick Let_def)

section \<open>The rate of a video\<close>

lemma validate_rate_invalid:
  assumes "truthy v" "\<not> strictly_positive_number v"
  shows "validate_rate ob (vd\<lparr>vd_rate := v\<rparr>) st = warn (Invalid_rate v) st"
  using assms
  by (cases v) (auto simp: validate_rate_def strictly_positive_number_def)

lemma validate_rate_absent:
  "\<not> truthy v \<Longrightarrow> validate_rate ob (vd\<lparr>vd_rate := v\<rparr>) st = st"
  by (simp add: validate_rate_def)

lemma Video_new_rate_irrelevant:
  "Video_new (vd\<lparr>vd_rate := v\<rparr>) st = Video_new vd st"
  by (simp add: Video_new_def)

lemma completeVideo_rate_irrelevant:
  "completeVideo ob (vd\<lparr>vd_rate := v\<rparr>) p parseIso st = completeVideo ob vd p parseIso st"
  by (simp add: completeVideo_def)

lemma check_position_rate_irrelevant:
  "check_position (vd\<lparr>vd_rate := v\<rparr>) st = check_position vd st"
  by (simp add: check_position_def)

lemma Video_create_invalid_rate:
  assumes "truthy v" "\<not> strictly_positive_number v"
  shows "Video_create ob (vd\<lparr>vd_rate := v\<rparr>) parseIso media st
           = Video_create ob (vd\<lparr>vd_rate := JUndefined\<rparr>) parseIso media (warn (Invalid_rate v) st)"
proof -
  have c: "completeVideo ob (vd\<lparr>vd_rate := v, vd_duration := d\<rparr>) p parseIso s
             = completeVideo ob (vd\<lparr>vd_rate := JUndefined, vd_duration := d\<rparr>) p parseIso s" for d p s
    by (simp add: completeVideo_def)
  show ?thesis
    by (simp add: Video_create_def validate_rate_invalid[OF assms] validate_rate_absent
          completeVideo_rate_irrelevant check_position_rate_irrelevant c Let_def
        split: sum.splits option.splits looked_up.splits)
qed

lemma Video_load_invalid_rate:
  assumes "truthy v" "\<not> strictly_positive_number v"
  shows "Video_load (vd\<lparr>vd_rate := v\<rparr>) parseIso media st
           = Video_load (vd\<lparr>vd_rate := JUndefined\<rparr>) parseIso media (warn (Invalid_rate v) st)"
proof -
  have n: "Video_new vd (warn w st) = (object_fresh st, warn w (snd (Video_new vd st)))" for w
    by (simp add: Video_new_def warn_def)
  have m: "Video_new vd st = (object_fresh st, snd (Video_new vd st))"
    by (simp add: Video_new_def)
  show ?thesis
    unfolding Video_load_def Video_new_rate_irrelevant
    by (subst n, subst m) (simp add: Video_create_invalid_rate[OF assms])
qed

lemma Pilot_ensure_frame:
  "Pilot_ensure n st = Inr (p, st1) \<Longrightarrow> objects st1 = objects st \<and> warnings st1 = warnings st"
  by (auto simp: Pilot_ensure_def Pilot_new_def Let_def
      split: option.splits list.splits looked_up.splits bool.splits)

lemma Pilot_add_frame:
  "Pilot_add p ob st = Inr st1 \<Longrightarrow>
     warnings st1 = warnings st \<and> o_rate (objects st1 x) = o_rate (objects st x)
     \<and> o_pilot (objects st1 ob) = Some p"
  by (auto simp: Pilot_add_def Let_def split: option.splits prod.splits)

lemma attach_interval_frame:
  "warnings (attach_interval ob iv st) = warnings st
   \<and> o_rate (objects (attach_interval ob iv st) x) = o_rate (objects st x)"
  by (simp add: attach_interval_def new_TimeInterval_def)

lemma parseDuration_frame:
  "parseDuration f v st = (d, st1) \<Longrightarrow>
     objects st1 = objects st \<and> set (warnings st) \<subseteq> set (warnings st1)"
  by (auto simp: parseDuration_def warn_def split: jsval.splits if_splits option.splits)

lemma check_position_frame:
  "objects (check_position vd st) = objects st
   \<and> set (warnings st) \<subseteq> set (warnings (check_position vd st))"
  by (auto simp: check_position_def warn_def Let_def)

lemma completeVideo_frame:
  assumes "completeVideo ob vd p f st = Inr st1"
  shows "set (warnings st) \<subseteq> set (warnings st1) \<and> o_rate (objects st1 x) = o_rate (objects st x)
         \<and> o_pilot (objects st1 ob) = Some p"
proof -
  obtain d st2 where pd: "parseDuration f (vd_duration vd) st = (d, st2)" by fastforce
  with assms obtain iv where "Pilot_add p ob (attach_interval ob iv st2) = Inr st1"
    by (auto simp: completeVideo_def Let_def)
  from Pilot_add_frame[OF this] attach_interval_frame[of ob iv st2] parseDuration_frame[OF pd]
  show ?thesis by auto
qed

lemma Video_create_frame:
  assumes "Video_create ob vd f m st = Inr st1"
  shows "set (warnings (validate_rate ob vd st)) \<subseteq> set (warnings st1)
         \<and> o_rate (objects st1 ob) = o_rate (objects (validate_rate ob vd st) ob)
         \<and> o_pilot (objects st1 ob) \<noteq> None"
proof -
  let ?s = "validate_rate ob vd st"
  from assms obtain p st2 where e: "Pilot_ensure (vd_pilot vd) ?s = Inr (Pilot_ref p, st2)"
    by (auto simp: Video_create_def Let_def split: sum.splits looked_up.splits)
  with assms obtain vd1 where c: "completeVideo ob vd1 p f (check_position vd st2) = Inr st1"
    by (auto simp: Video_create_def Let_def split: if_splits option.splits)
  from completeVideo_frame[OF c, of ob] check_position_frame[of vd st2] Pilot_ensure_frame[OF e]
  show ?thesis by auto
qed

text \<open>
  Claim C10, as amended. For every video whose rate field is truthy (so not \<open>0\<close>, \<open>NaN\<close>,
  the empty string, \<open>null\<close>, \<open>false\<close> or missing) and is not a strictly positive number,
  \<open>create\<close> logs the warning and then goes on exactly as for a video without a rate field:
  loading it is loading the same video without the field in the state with the warning
  logged. When the load succeeds the rate of the video is the default 1, the warning is in
  the log, and the video has its pilot.
\<close>

theorem video_invalid_rate_as_absent:
  assumes "truthy v" and "\<not> strictly_positive_number v"
  shows "Video_load (vd\<lparr>vd_rate := v\<rparr>) parseIso media st
           = Video_load (vd\<lparr>vd_rate := JUndefined\<rparr>) parseIso media (warn (Invalid_rate v) st)
         \<and> (case Video_load (vd\<lparr>vd_rate := v\<rparr>) parseIso media st of
               Inl e \<Rightarrow> True
             | Inr (ob, st1) \<Rightarrow>
                 o_rate (objects st1 ob) = 1 \<and> Invalid_rate v \<in> set (warnings st1)
                 \<and> o_pilot (objects st1 ob) \<noteq> None)"
proof -
  let ?vd = "vd\<lparr>vd_rate := v\<rparr>"
  let ?ob = "object_fresh st"
  obtain s where n: "Video_new ?vd st = (?ob, s)" and r1: "o_rate (objects s ?ob) = 1"
    by (simp add: Video_new_def)
  have v: "validate_rate ?ob ?vd s = warn (Invalid_rate v) s"
    using validate_rate_invalid[OF assms] by simp
  have w: "Invalid_rate v \<in> set (warnings (warn (Invalid_rate v) s))"
    by (simp add: warn_def)
  have o: "o_rate (objects (warn (Invalid_rate v) s) ?ob) = 1"
    using r1 by (simp add: warn_def)
  have "o_rate (objects st1 ?ob) = 1 \<and> Invalid_rate v \<in> set (warnings st1)
          \<and> o_pilot (objects st1 ?ob) \<noteq> None"
    if "Video_create ?ob ?vd parseIso media s = Inr st1" for st1
  proof -
    from Video_create_frame[OF that]
    have f: "set (warnings (warn (Invalid_rate v) s)) \<subseteq> set (warnings st1)"
      and g: "o_rate (objects st1 ?ob) = o_rate (objects (warn (Invalid_rate v) s) ?ob)"
      and h: "o_pilot (objects st1 ?ob) \<noteq> None"
      unfolding v by blast+
    from f w have "Invalid_rate v \<in> set (warnings st1)" by (rule subsetD)
    with g o h show ?thesis by simp
  qed
  then have "case Video_load ?vd parseIso media st of
               Inl e \<Rightarrow> True
             | Inr (ob, st1) \<Rightarrow>
                 o_rate (objects st1 ob) = 1 \<and> Invalid_rate v \<in> set (warnings st1)
                 \<and> o_pilot (objects st1 ob) \<noteq> None"
    by (simp add: Video_load_def n split: sum.splits)
  with Video_load_invalid_rate[OF assms, of vd parseIso media st]
  show ?thesis by blast
qed

theorem video_invalid_rate_witness:
  "Video_load (clip\<lparr>vd_rate := JNum (- 2)\<rparr>) no_parse None (initialize late_clock)
     = Video_load (clip\<lparr>vd_rate := JUndefined\<rparr>) no_parse None
         (warn (Invalid_rate (JNum (- 2))) (initialize late_clock))
   \<and> (case Video_load (clip\<lparr>vd_rate := JNum (- 2)\<rparr>) no_parse None (initialize late_clock) of
         Inl e \<Rightarrow> False
       | Inr (ob, st1) \<Rightarrow>
           warnings st1 = [Invalid_rate (JNum (- 2))] \<and> o_rate (objects st1 ob) = 1
           \<and> map (cells (iheap st1)) (videos (pilot_heap st1 1))
               = [\<lparr>start = at_day 2460000 20, stop = at_day 2460000 30, data = Some ob\<rparr>])"
proof -
  have t: "truthy (JNum (- 2))" and s: "\<not> strictly_positive_number (JNum (- 2))"
    by (simp_all add: strictly_positive_number_def)
  have "case Video_load (clip\<lparr>vd_rate := JNum (- 2)\<rparr>) no_parse None (initialize late_clock) of
         Inl e \<Rightarrow> False
       | Inr (ob, st1) \<Rightarrow>
           warnings st1 = [Invalid_rate (JNum (- 2))] \<and> o_rate (objects st1 ob) = 1
           \<and> map (cells (iheap st1)) (videos (pilot_heap st1 1))
               = [\<lparr>start = at_day 2460000 20, stop = at_day 2460000 30, data = Some ob\<rparr>]"
    by (simp add: clip_def no_parse_def warn_def
        initialize_eval empty_state_def eval_pilot eval_coll eval_video Let_def)
  with video_invalid_rate_as_absent[OF t s, of clip no_parse None "initialize late_clock"]
  show ?thesis by simp
qed

lemma zero_rate_evaluated:
  "rate_present (JNum 0) \<and> \<not> strictly_positive_number (JNum 0)
   \<and> (case Video_load (clip\<lparr>vd_rate := JNum 0\<rparr>) no_parse None (initialize late_clock) of
         Inl e \<Rightarrow> False
       | Inr (ob, st1) \<Rightarrow>
           warnings st1 = [] \<and> o_rate (objects st1 ob) = 1
           \<and> map (cells (iheap st1)) (videos (pilot_heap st1 1))
               = [\<lparr>start = at_day 2460000 20, stop = at_day 2460000 30, data = Some ob\<rparr>])"
  by (simp add: rate_present_def strictly_positive_number_def clip_def no_parse_def
        initialize_eval empty_state_def eval_pilot eval_coll eval_video Let_def)

text \<open>
  The claim as stated fails for a rate that is present and not strictly positive but not
  truthy: with rate \<open>0\<close> the picture is created and indexed with rate 1, and no warning is
  logged.
\<close>

theorem zero_rate_no_warning:
  "rate_present (JNum 0) \<and> \<not> strictly_positive_number (JNum 0)
   \<and> \<not> isl (Video_load (clip\<lparr>vd_rate := JNum 0\<rparr>) no_parse None (initialize late_clock))
   \<and> warnings (snd (projr (Video_load (clip\<lparr>vd_rate := JNum 0\<rparr>) no_parse None
                             (initialize late_clock)))) = []
   \<and> o_rate (objects (snd (projr (Video_load (clip\<lparr>vd_rate := JNum 0\<rparr>) no_parse None
                                    (initialize late_clock))))
              (fst (projr (Video_load (clip\<lparr>vd_rate := JNum 0\<rparr>) no_parse None
                             (initialize late_clock))))) = 1
   \<and> length (videos (pilot_heap (snd (projr (Video_load (clip\<lparr>vd_rate := JNum 0\<rparr>) no_parse None
                                              (initialize late_clock)))) 1)) = 1"
  using zero_rate_evaluated
  by (cases "Video_load (clip\<lparr>vd_rate := JNum 0\<rparr>) no_parse None (initialize late_clock)")
     auto

end
